theory Spec2Isabelle
  imports Main "HOL-Library.Word" "HOL-Library.AList"
begin

section \<open>Data model of the TTL cache (package ttl)\<close>

text \<open>
  The Go program keeps one \<^verbatim>\<open>*list.Element\<close> per cached key; the element's
  \<^verbatim>\<open>Value\<close> is a \<^verbatim>\<open>*Item\<close>. The same pointer is held by the recency list
  \<^verbatim>\<open>queue\<close>, by the key index \<^verbatim>\<open>items\<close> and by one bucket's \<^verbatim>\<open>entries\<close>, and the
  item is mutated through it. The model therefore has an explicit store: an element is an
  address, and \<open>heap\<close> maps every address to the item it points to. Go memory is garbage
  collected, so a pointer never dangles: the store is total, and an address that was never
  allocated holds the zero \<^verbatim>\<open>Item\<close>. \<open>nextAddr\<close> is the allocator: the next address
  \<^verbatim>\<open>PushFront\<close> hands out.

  Instants (\<^verbatim>\<open>time.Time\<close>) and durations (\<^verbatim>\<open>time.Duration\<close>) are integers
  on one scale; the zero \<^verbatim>\<open>time.Time\<close> is 0. A value of type \<^verbatim>\<open>any\<close> is
  \<open>'v option\<close>, \<open>None\<close> being \<^verbatim>\<open>nil\<close>. A Go map is an association list with
  distinct keys: \<open>map_of\<close> looks a key up, \<open>AList.update\<close> assigns, \<open>AList.delete\<close>
  deletes and \<open>length\<close> is \<^verbatim>\<open>len\<close>. The mutex and the \<^verbatim>\<open>done\<close> channel are not
  modelled: every operation below is one critical section.
\<close>

type_synonym addr = nat

record 'v Item =
  Key :: string
  Value :: "'v option"
  ExpiresAt :: int
  ExpireBucket :: "8 word"

record bucket =
  entries :: "(string \<times> addr) list"
  newestEntry :: int

record 'v LRU =
  cap :: int
  queue :: "addr list"
  items :: "(string \<times> addr) list"
  ttl :: int
  buckets :: "bucket list"
  nextCleanupBucket :: "8 word"
  heap :: "addr \<Rightarrow> 'v Item"
  nextAddr :: addr

datatype error = IndexOutOfRange

definition numBuckets :: nat where
  "numBuckets = 100"

definition zeroItem :: "'v Item" where
  "zeroItem = \<lparr>Key = [], Value = None, ExpiresAt = 0, ExpireBucket = 0\<rparr>"

subsection \<open>The operations of container/list that the cache calls\<close>

text \<open>
  The list is the sequence of its elements, front first. \<^verbatim>\<open>MoveToFront\<close> and
  \<^verbatim>\<open>Remove\<close> do nothing for an element that is not in the list; \<^verbatim>\<open>Back\<close> is
  \<^verbatim>\<open>nil\<close> on the empty list.
\<close>

definition list_MoveToFront :: "addr list \<Rightarrow> addr \<Rightarrow> addr list" where
  "list_MoveToFront q e = (if e \<in> set q then e # remove1 e q else q)"

definition list_Remove :: "addr list \<Rightarrow> addr \<Rightarrow> addr list" where
  "list_Remove q e = remove1 e q"

definition list_PushFront :: "addr list \<Rightarrow> addr \<Rightarrow> addr list" where
  "list_PushFront q e = e # q"

definition list_Back :: "addr list \<Rightarrow> addr option" where
  "list_Back q = (if q = [] then None else Some (last q))"

section \<open>The cache operations\<close>

definition NewLRU :: "int \<Rightarrow> int \<Rightarrow> 'v LRU" where
  "NewLRU cap0 ttl0 =
     \<lparr>cap = (if cap0 < 0 then 0 else cap0),
      queue = [],
      items = [],
      ttl = (if ttl0 < 0 then 0 else ttl0),
      buckets = replicate numBuckets \<lparr>entries = [], newestEntry = 0\<rparr>,
      nextCleanupBucket = 0,
      heap = (\<lambda>_. zeroItem),
      nextAddr = 0\<rparr>"

text \<open>\<^verbatim>\<open>removeFromBucket\<close>: the slice index panics when it is out of range.\<close>

definition removeFromBucket :: "'v LRU \<Rightarrow> addr \<Rightarrow> error + 'v LRU" where
  "removeFromBucket c e =
     (let b = unat (ExpireBucket (heap c e)) in
      if b < length (buckets c)
      then Inr (c\<lparr>buckets := (buckets c)
                  [b := (buckets c ! b)\<lparr>entries := AList.delete (Key (heap c e)) (entries (buckets c ! b))\<rparr>]\<rparr>)
      else Inl IndexOutOfRange)"

text \<open>
  \<^verbatim>\<open>addToBucket\<close>: the index is computed in \<^verbatim>\<open>uint8\<close> arithmetic, the type of
  \<^verbatim>\<open>nextCleanupBucket\<close>.
\<close>

definition addToBucket :: "'v LRU \<Rightarrow> addr \<Rightarrow> error + 'v LRU" where
  "addToBucket c e =
     (let bucketId = (of_nat numBuckets + nextCleanupBucket c - 1) mod of_nat numBuckets;
          h = (heap c)(e := (heap c e)\<lparr>ExpireBucket := bucketId\<rparr>);
          b = unat bucketId
      in if b < length (buckets c)
         then let bk = (buckets c ! b)\<lparr>entries := AList.update (Key (h e)) e (entries (buckets c ! b))\<rparr>;
                  bk' = (if newestEntry bk < ExpiresAt (h e)
                         then bk\<lparr>newestEntry := ExpiresAt (h e)\<rparr> else bk)
              in Inr (c\<lparr>heap := h, buckets := (buckets c)[b := bk']\<rparr>)
         else Inl IndexOutOfRange)"

definition removeElement :: "'v LRU \<Rightarrow> addr \<Rightarrow> error + 'v LRU" where
  "removeElement c e =
     removeFromBucket
       (c\<lparr>queue := list_Remove (queue c) e,
          items := AList.delete (Key (heap c e)) (items c)\<rparr>) e"

definition removeOldest :: "'v LRU \<Rightarrow> error + 'v LRU" where
  "removeOldest c =
     (case list_Back (queue c) of
        Some ent \<Rightarrow> removeElement c ent
      | None \<Rightarrow> Inr c)"

text \<open>\<^verbatim>\<open>Add\<close>; \<open>now\<close> is the reading of \<^verbatim>\<open>time.Now()\<close>.\<close>

definition Add :: "'v LRU \<Rightarrow> string \<Rightarrow> 'v option \<Rightarrow> int \<Rightarrow> error + 'v LRU" where
  "Add c key val now =
     (case map_of (items c) key of
        Some ent \<Rightarrow>
          (case removeFromBucket (c\<lparr>queue := list_MoveToFront (queue c) ent\<rparr>) ent of
             Inl err \<Rightarrow> Inl err
           | Inr c1 \<Rightarrow>
               addToBucket
                 (c1\<lparr>heap := (heap c1)(ent := (heap c1 ent)\<lparr>Value := val, ExpiresAt := now + ttl c1\<rparr>)\<rparr>)
                 ent)
      | None \<Rightarrow>
          (case (if int (length (items c)) = cap c then removeOldest c else Inr c) of
             Inl err \<Rightarrow> Inl err
           | Inr c1 \<Rightarrow>
               (let element = nextAddr c1;
                    ent = \<lparr>Key = key, Value = val, ExpiresAt = now + ttl c1, ExpireBucket = 0\<rparr>
                in addToBucket
                     (c1\<lparr>heap := (heap c1)(element := ent),
                         nextAddr := Suc element,
                         queue := list_PushFront (queue c1) element,
                         items := AList.update key element (items c1)\<rparr>)
                     element)))"

text \<open>\<^verbatim>\<open>Get\<close> returns the pair \<^verbatim>\<open>(any, bool)\<close> and the cache it leaves.\<close>

definition Get :: "'v LRU \<Rightarrow> string \<Rightarrow> int \<Rightarrow> ('v option \<times> bool) \<times> 'v LRU" where
  "Get c key now =
     (case map_of (items c) key of
        Some ent \<Rightarrow>
          if ExpiresAt (heap c ent) < now then ((None, False), c)
          else ((Value (heap c ent), True), c\<lparr>queue := list_MoveToFront (queue c) ent\<rparr>)
      | None \<Rightarrow> ((None, False), c))"

definition Remove :: "'v LRU \<Rightarrow> string \<Rightarrow> error + (bool \<times> 'v LRU)" where
  "Remove c key =
     (case map_of (items c) key of
        Some ent \<Rightarrow>
          (case removeElement c ent of Inl err \<Rightarrow> Inl err | Inr c' \<Rightarrow> Inr (True, c'))
      | None \<Rightarrow> Inr (False, c))"

definition RemoveOldest :: "'v LRU \<Rightarrow> error + ((string \<times> 'v option \<times> bool) \<times> 'v LRU)" where
  "RemoveOldest c =
     (case list_Back (queue c) of
        Some ent \<Rightarrow>
          (case removeElement c ent of
             Inl err \<Rightarrow> Inl err
           | Inr c' \<Rightarrow> Inr ((Key (heap c' ent), Value (heap c' ent), True), c'))
      | None \<Rightarrow> Inr (([], None, False), c))"

text \<open>
  \<^verbatim>\<open>Purge\<close>. A \<^verbatim>\<open>range\<close> over a map that deletes from it visits the keys the
  map had at the start, skipping a key deleted before it is reached: the loops run over
  the keys at the start and look each one up again. The inner loop deletes the key stored
  in the item the entry points to.
\<close>

fun purgeEntries :: "(addr \<Rightarrow> 'v Item) \<Rightarrow> string list \<Rightarrow> (string \<times> addr) list \<Rightarrow> (string \<times> addr) list" where
  "purgeEntries h [] es = es"
| "purgeEntries h (k # ks) es =
     (case map_of es k of
        None \<Rightarrow> purgeEntries h ks es
      | Some ent \<Rightarrow> purgeEntries h ks (AList.delete (Key (h ent)) es))"

definition Purge :: "'v LRU \<Rightarrow> 'v LRU" where
  "Purge c =
     c\<lparr>items := fold AList.delete (map fst (items c)) (items c),
       buckets := map (\<lambda>b. b\<lparr>entries := purgeEntries (heap c) (map fst (entries b)) (entries b)\<rparr>) (buckets c),
       queue := []\<rparr>"

text \<open>
  \<^verbatim>\<open>deleteExpired\<close>, one cycle of the sweeper. The cycle reads the cursor and the
  bucket's \<open>newestEntry\<close>, may sleep without the lock, and then ranges over the bucket as
  it is after the sleep. Only this goroutine writes \<^verbatim>\<open>nextCleanupBucket\<close>, and
  \<^verbatim>\<open>addToBucket\<close>, the only writer of \<open>newestEntry\<close>, writes the bucket before the
  cursor; so what the cycle read before the sleep still holds after it, and the cycle is
  modelled as one step on the cache as it is when the sleep is over. It returns the time
  slept and the cache; \<open>now\<close> is the clock when the cycle starts. The loop visits the keys
  the bucket has at its start and looks each one up again, as in \<^verbatim>\<open>Purge\<close>.
\<close>

fun sweepEntries :: "nat \<Rightarrow> string list \<Rightarrow> 'v LRU \<Rightarrow> error + 'v LRU" where
  "sweepEntries b [] c = Inr c"
| "sweepEntries b (k # ks) c =
     (if b < length (buckets c)
      then (case map_of (entries (buckets c ! b)) k of
              None \<Rightarrow> sweepEntries b ks c
            | Some ent \<Rightarrow>
                (case removeElement c ent of
                   Inl err \<Rightarrow> Inl err
                 | Inr c' \<Rightarrow> sweepEntries b ks c'))
      else Inl IndexOutOfRange)"

definition deleteExpired :: "'v LRU \<Rightarrow> int \<Rightarrow> error + (int \<times> 'v LRU)" where
  "deleteExpired c now =
     (let bucketIdx = unat (nextCleanupBucket c) in
      if bucketIdx < length (buckets c)
      then (let timeToExpire = newestEntry (buckets c ! bucketIdx) - now in
            case sweepEntries bucketIdx (map fst (entries (buckets c ! bucketIdx))) c of
              Inl err \<Rightarrow> Inl err
            | Inr c' \<Rightarrow>
                Inr (if timeToExpire > 0 then timeToExpire else 0,
                     c'\<lparr>nextCleanupBucket := (nextCleanupBucket c' + 1) mod of_nat numBuckets\<rparr>))
      else Inl IndexOutOfRange)"

section \<open>Sequences of operations\<close>

text \<open>
  A run of the cache is a list of calls, each with the clock reading it sees. \<open>exec\<close>
  threads the cache through them and stops at the first panic. \<open>OpDeleteExpired\<close> is one
  cycle of the sweeper. The program starts the sweeper only when \<open>ttl \<noteq> 0\<close>, and the clock
  never runs backwards; \<open>exec\<close> admits a sweep in every state and any clock readings, so
  the runs of the program are among the runs of \<open>exec\<close>.
\<close>

datatype 'v op =
    OpAdd string "'v option" int
  | OpGet string int
  | OpRemove string
  | OpRemoveOldest
  | OpPurge
  | OpDeleteExpired int

fun step :: "'v LRU \<Rightarrow> 'v op \<Rightarrow> error + 'v LRU" where
  "step c (OpAdd k v now) = Add c k v now"
| "step c (OpGet k now) = Inr (snd (Get c k now))"
| "step c (OpRemove k) = map_sum id snd (Remove c k)"
| "step c OpRemoveOldest = map_sum id snd (RemoveOldest c)"
| "step c OpPurge = Inr (Purge c)"
| "step c (OpDeleteExpired now) = map_sum id snd (deleteExpired c now)"

fun exec :: "'v LRU \<Rightarrow> 'v op list \<Rightarrow> error + 'v LRU" where
  "exec c [] = Inr c"
| "exec c (x # xs) = (case step c x of Inl err \<Rightarrow> Inl err | Inr c' \<Rightarrow> exec c' xs)"

section \<open>The states the operations leave, and the invariant\<close>

text \<open>
  The definitions of this section are not code of the program. They name the cache each
  operation leaves when it does not panic (\<open>removed\<close> for \<^verbatim>\<open>removeElement\<close>, \<open>placed\<close>
  for \<^verbatim>\<open>addToBucket\<close>, \<open>refreshed\<close> and \<open>inserted\<close> for the two paths of \<^verbatim>\<open>Add\<close>
  before the bucket is assigned, \<open>evicted\<close> for \<^verbatim>\<open>removeOldest\<close>, \<open>made_room\<close> for the
  capacity check of \<^verbatim>\<open>Add\<close>, \<open>purged\<close> for \<^verbatim>\<open>Purge\<close>), and the invariant \<open>invar\<close>
  that every cache built by \<open>NewLRU\<close> and the operations satisfies: the key index, the
  recency list and the buckets hold the same elements, each element under the key of its
  item and in the bucket its item names, and no bucket's \<open>newestEntry\<close> is before the
  expiry of one of its members. \<open>invar_but c e\<close> is the invariant with the element \<open>e\<close>
  in no bucket yet.
\<close>

definition bucket_ok :: "'v LRU \<Rightarrow> nat \<Rightarrow> bool" where
  "bucket_ok c b \<longleftrightarrow>
     distinct (map fst (entries (buckets c ! b))) \<and>
     (\<forall>k e. map_of (entries (buckets c ! b)) k = Some e \<longrightarrow>
        map_of (items c) k = Some e \<and> unat (ExpireBucket (heap c e)) = b \<and>
        ExpiresAt (heap c e) \<le> newestEntry (buckets c ! b))"

definition item_ok :: "'v LRU \<Rightarrow> string \<Rightarrow> addr \<Rightarrow> bool" where
  "item_ok c k e \<longleftrightarrow>
     e \<in> set (queue c) \<and> Key (heap c e) = k \<and>
     unat (ExpireBucket (heap c e)) < numBuckets \<and>
     map_of (entries (buckets c ! unat (ExpireBucket (heap c e)))) k = Some e"

definition invar :: "'v LRU \<Rightarrow> bool" where
  "invar c \<longleftrightarrow>
     length (buckets c) = numBuckets \<and>
     unat (nextCleanupBucket c) < numBuckets \<and>
     distinct (queue c) \<and>
     distinct (map fst (items c)) \<and>
     length (items c) = length (queue c) \<and>
     (\<forall>k e. map_of (items c) k = Some e \<longrightarrow> item_ok c k e) \<and>
     (\<forall>e \<in> set (queue c). e < nextAddr c \<and> map_of (items c) (Key (heap c e)) = Some e) \<and>
     (\<forall>b < numBuckets. bucket_ok c b)"

definition removed :: "'v LRU \<Rightarrow> addr \<Rightarrow> 'v LRU" where
  "removed c e =
     c\<lparr>queue := remove1 e (queue c),
       items := AList.delete (Key (heap c e)) (items c),
       buckets := (buckets c)
         [unat (ExpireBucket (heap c e)) :=
            (buckets c ! unat (ExpireBucket (heap c e)))
              \<lparr>entries := AList.delete (Key (heap c e))
                 (entries (buckets c ! unat (ExpireBucket (heap c e))))\<rparr>]\<rparr>"

definition targetBucket :: "'v LRU \<Rightarrow> 8 word" where
  "targetBucket c = (of_nat numBuckets + nextCleanupBucket c - 1) mod of_nat numBuckets"

definition placed :: "'v LRU \<Rightarrow> addr \<Rightarrow> 'v LRU" where
  "placed c e =
     c\<lparr>heap := (heap c)(e := (heap c e)\<lparr>ExpireBucket := targetBucket c\<rparr>),
       buckets := (buckets c)
         [unat (targetBucket c) :=
            (buckets c ! unat (targetBucket c))
              \<lparr>entries := AList.update (Key (heap c e)) e (entries (buckets c ! unat (targetBucket c))),
               newestEntry := max (newestEntry (buckets c ! unat (targetBucket c))) (ExpiresAt (heap c e))\<rparr>]\<rparr>"

definition invar_but :: "'v LRU \<Rightarrow> addr \<Rightarrow> bool" where
  "invar_but c e \<longleftrightarrow>
     length (buckets c) = numBuckets \<and>
     unat (nextCleanupBucket c) < numBuckets \<and>
     distinct (queue c) \<and>
     distinct (map fst (items c)) \<and>
     length (items c) = length (queue c) \<and>
     e \<in> set (queue c) \<and>
     (\<forall>k a. map_of (items c) k = Some a \<longrightarrow> (if a = e then k = Key (heap c e) else item_ok c k a)) \<and>
     (\<forall>a \<in> set (queue c). a < nextAddr c \<and> map_of (items c) (Key (heap c a)) = Some a) \<and>
     (\<forall>b < numBuckets. bucket_ok c b \<and> (\<forall>k. map_of (entries (buckets c ! b)) k \<noteq> Some e))"

definition refreshed :: "'v LRU \<Rightarrow> addr \<Rightarrow> 'v option \<Rightarrow> int \<Rightarrow> 'v LRU" where
  "refreshed c e v x =
     c\<lparr>queue := e # remove1 e (queue c),
       buckets := (buckets c)
         [unat (ExpireBucket (heap c e)) :=
            (buckets c ! unat (ExpireBucket (heap c e)))
              \<lparr>entries := AList.delete (Key (heap c e))
                 (entries (buckets c ! unat (ExpireBucket (heap c e))))\<rparr>],
       heap := (heap c)(e := (heap c e)\<lparr>Value := v, ExpiresAt := x\<rparr>)\<rparr>"

definition inserted :: "'v LRU \<Rightarrow> string \<Rightarrow> 'v option \<Rightarrow> int \<Rightarrow> 'v LRU" where
  "inserted c key v x =
     c\<lparr>heap := (heap c)(nextAddr c := \<lparr>Key = key, Value = v, ExpiresAt = x, ExpireBucket = 0\<rparr>),
       nextAddr := Suc (nextAddr c),
       queue := nextAddr c # queue c,
       items := AList.update key (nextAddr c) (items c)\<rparr>"

definition evicted :: "'v LRU \<Rightarrow> 'v LRU" where
  "evicted c = (if queue c = [] then c else removed c (last (queue c)))"

definition made_room :: "'v LRU \<Rightarrow> 'v LRU" where
  "made_room c = (if int (length (items c)) = cap c then evicted c else c)"

definition purged :: "'v LRU \<Rightarrow> 'v LRU" where
  "purged c = c\<lparr>items := [], buckets := map (\<lambda>b. b\<lparr>entries := []\<rparr>) (buckets c), queue := []\<rparr>"

text \<open>
  The cache a sweep of bucket \<open>b\<close> leaves when it has removed the keys \<open>K\<close>: the elements
  under these keys are gone from the recency list, the key index and the bucket.
\<close>

definition swept :: "'v LRU \<Rightarrow> nat \<Rightarrow> string set \<Rightarrow> 'v LRU" where
  "swept c b K =
     c\<lparr>queue := filter (\<lambda>a. Key (heap c a) \<notin> K) (queue c),
       items := filter (\<lambda>p. fst p \<notin> K) (items c),
       buckets := (buckets c)
         [b := (buckets c ! b)\<lparr>entries := filter (\<lambda>p. fst p \<notin> K) (entries (buckets c ! b))\<rparr>]\<rparr>"

subsection \<open>The bucket invariant as the spec words it\<close>

text \<open>
  The spec's sentence "a bucket's newestExpiry is the maximum expiresAt among its current
  members", for the bucket with index \<open>b\<close>. It is stated from the spec, to be compared
  with what the code keeps.
\<close>

definition newestEntry_is_max :: "'v LRU \<Rightarrow> nat \<Rightarrow> bool" where
  "newestEntry_is_max c b \<longleftrightarrow>
     newestEntry (buckets c ! b) =
       Max ((\<lambda>(k, e). ExpiresAt (heap c e)) ` set (entries (buckets c ! b)))"

section \<open>Every operation keeps the invariant and does not panic\<close>

lemma length_delete_present:
  "distinct (map fst al) \<Longrightarrow> map_of al k = Some v \<Longrightarrow> Suc (length (AList.delete k al)) = length al"
proof (induction al)
  case Nil
  then show ?case by simp
next
  case (Cons p al)
  show ?case
  proof (cases "fst p = k")
    case True
    with Cons.prems have "k \<notin> fst ` set al" by auto
    with True show ?thesis by (cases p) (simp add: AList.delete_id)
  next
    case False
    with Cons show ?thesis by (cases p) auto
  qed
qed

lemma length_update_absent:
  "map_of al k = None \<Longrightarrow> length (AList.update k v al) = Suc (length al)"
  by (induction al) (auto split: if_splits)

lemma invar_NewLRU: "invar (NewLRU cap0 ttl0)"
  by (simp add: invar_def NewLRU_def bucket_ok_def item_ok_def numBuckets_def)

lemma removeElement_removed:
  "unat (ExpireBucket (heap c e)) < length (buckets c) \<Longrightarrow> removeElement c e = Inr (removed c e)"
  by (simp add: removeElement_def removeFromBucket_def list_Remove_def removed_def Let_def)

lemma removed_fields [simp]:
  "queue (removed c e) = remove1 e (queue c)"
  "items (removed c e) = AList.delete (Key (heap c e)) (items c)"
  "heap (removed c e) = heap c"
  "cap (removed c e) = cap c"
  "ttl (removed c e) = ttl c"
  "nextAddr (removed c e) = nextAddr c"
  "nextCleanupBucket (removed c e) = nextCleanupBucket c"
  "length (buckets (removed c e)) = length (buckets c)"
  by (simp_all add: removed_def)

lemma removed_entries:
  "b < length (buckets c) \<Longrightarrow>
   entries (buckets (removed c e) ! b) =
     (if b = unat (ExpireBucket (heap c e))
      then AList.delete (Key (heap c e)) (entries (buckets c ! b))
      else entries (buckets c ! b))"
  by (cases "b = unat (ExpireBucket (heap c e))") (simp_all add: removed_def)

lemma removed_lookup:
  "b < length (buckets c) \<Longrightarrow>
   map_of (entries (buckets (removed c e) ! b)) k =
     (if b = unat (ExpireBucket (heap c e)) \<and> k = Key (heap c e) then None
      else map_of (entries (buckets c ! b)) k)"
  by (simp add: removed_entries AList.delete_conv')

lemma removed_newestEntry:
  "b < length (buckets c) \<Longrightarrow> newestEntry (buckets (removed c e) ! b) = newestEntry (buckets c ! b)"
  by (cases "b = unat (ExpireBucket (heap c e))") (simp_all add: removed_def)

lemma invarD_item:
  "invar c \<Longrightarrow> map_of (items c) k = Some e \<Longrightarrow> item_ok c k e"
  by (simp add: invar_def)

lemma invarD_queue:
  "invar c \<Longrightarrow> e \<in> set (queue c) \<Longrightarrow> e < nextAddr c \<and> map_of (items c) (Key (heap c e)) = Some e"
  by (simp add: invar_def)

lemma invarD_bucket:
  "invar c \<Longrightarrow> b < numBuckets \<Longrightarrow> bucket_ok c b"
  by (simp add: invar_def)

lemma bucket_okD:
  "bucket_ok c b \<Longrightarrow> map_of (entries (buckets c ! b)) k = Some e \<Longrightarrow>
   map_of (items c) k = Some e \<and> unat (ExpireBucket (heap c e)) = b \<and>
   ExpiresAt (heap c e) \<le> newestEntry (buckets c ! b)"
  unfolding bucket_ok_def by blast

lemma bucket_ok_distinct:
  "bucket_ok c b \<Longrightarrow> distinct (map fst (entries (buckets c ! b)))"
  unfolding bucket_ok_def by blast

lemma invar_removed:
  assumes inv: "invar c" and e: "e \<in> set (queue c)"
  shows "invar (removed c e)"
proof -
  let ?k = "Key (heap c e)" and ?b = "unat (ExpireBucket (heap c e))" and ?c = "removed c e"
  have len: "length (buckets c) = numBuckets" and dq: "distinct (queue c)"
    and di: "distinct (map fst (items c))" and li: "length (items c) = length (queue c)"
    and cur: "unat (nextCleanupBucket c) < numBuckets"
    using inv by (simp_all add: invar_def)
  have ke: "map_of (items c) ?k = Some e" using invarD_queue[OF inv e] by simp
  have b: "?b < numBuckets" using invarD_item[OF inv ke] by (simp add: item_ok_def)
  have c1: "length (items ?c) = length (queue ?c)"
    using length_delete_present[OF di ke] li e by (simp add: length_remove1)
  have c2: "item_ok ?c k a" if ka: "map_of (items ?c) k = Some a" for k a
  proof -
    have kk: "k \<noteq> ?k" using ka by (auto simp: AList.delete_conv')
    then have ka': "map_of (items c) k = Some a" using ka by simp
    have ok: "item_ok c k a" by (rule invarD_item[OF inv ka'])
    then have "a \<noteq> e" using kk by (auto simp: item_ok_def)
    then show ?thesis using ok kk len
      by (simp add: item_ok_def removed_lookup)
  qed
  have c3: "a < nextAddr ?c \<and> map_of (items ?c) (Key (heap ?c a)) = Some a"
    if a: "a \<in> set (queue ?c)" for a
  proof -
    have a': "a \<in> set (queue c)" and ne: "a \<noteq> e" using a dq by auto
    have q: "a < nextAddr c \<and> map_of (items c) (Key (heap c a)) = Some a"
      by (rule invarD_queue[OF inv a'])
    then have "Key (heap c a) \<noteq> ?k" using ke ne by auto
    then show ?thesis using q by simp
  qed
  have c4: "bucket_ok ?c b'" if b': "b' < numBuckets" for b'
  proof -
    have ok: "bucket_ok c b'" by (rule invarD_bucket[OF inv b'])
    have sub: "map_of (entries (buckets c ! b')) k = Some a \<and> k \<noteq> ?k"
      if "map_of (entries (buckets ?c ! b')) k = Some a" for k a
    proof (cases "b' = ?b")
      case True
      then show ?thesis using that b' len
        by (simp add: removed_lookup split: if_splits)
    next
      case False
      then have m: "map_of (entries (buckets c ! b')) k = Some a"
        using that b' len by (simp add: removed_lookup)
      then have "map_of (items c) k = Some a" "unat (ExpireBucket (heap c a)) = b'"
        using bucket_okD[OF ok] by blast+
      then have "k \<noteq> ?k" using ke False by auto
      then show ?thesis using m by simp
    qed
    have d: "distinct (map fst (entries (buckets ?c ! b')))"
      using bucket_ok_distinct[OF ok] b' len by (clarsimp simp: removed_entries AList.distinct_delete)
    show ?thesis
      unfolding bucket_ok_def
    proof (intro conjI allI impI)
      show "distinct (map fst (entries (buckets ?c ! b')))" by (rule d)
    next
      fix k a assume m: "map_of (entries (buckets ?c ! b')) k = Some a"
      from sub[OF m] have m': "map_of (entries (buckets c ! b')) k = Some a" and kk: "k \<noteq> ?k"
        by simp_all
      note D = bucket_okD[OF ok m']
      from D kk show "map_of (items ?c) k = Some a" by simp
      from D show "unat (ExpireBucket (heap ?c a)) = b'" by simp
      from D b' len show "ExpiresAt (heap ?c a) \<le> newestEntry (buckets ?c ! b')"
        by (simp add: removed_newestEntry)
    qed
  qed
  show ?thesis
    unfolding invar_def
  proof (intro conjI allI impI ballI)
    show "length (buckets ?c) = numBuckets" using len by simp
    show "unat (nextCleanupBucket ?c) < numBuckets" using cur by simp
    show "distinct (queue ?c)" using dq by simp
    show "distinct (map fst (items ?c))" using di by (simp add: AList.distinct_delete)
    show "length (items ?c) = length (queue ?c)" by (rule c1)
    show "item_ok ?c k a" if "map_of (items ?c) k = Some a" for k a by (rule c2[OF that])
    show "a < nextAddr ?c" if "a \<in> set (queue ?c)" for a using c3[OF that] by simp
    show "map_of (items ?c) (Key (heap ?c a)) = Some a" if "a \<in> set (queue ?c)" for a
      using c3[OF that] by simp
    show "bucket_ok ?c b'" if "b' < numBuckets" for b' by (rule c4[OF that])
  qed
qed

lemma unat_targetBucket: "unat (targetBucket c) < numBuckets"
  by (simp add: targetBucket_def numBuckets_def unat_mod)

lemma addToBucket_placed:
  "length (buckets c) = numBuckets \<Longrightarrow> addToBucket c e = Inr (placed c e)"
  using unat_targetBucket[of c]
  by (simp add: addToBucket_def placed_def targetBucket_def Let_def max_def)

lemma placed_fields [simp]:
  "queue (placed c e) = queue c"
  "items (placed c e) = items c"
  "cap (placed c e) = cap c"
  "ttl (placed c e) = ttl c"
  "nextAddr (placed c e) = nextAddr c"
  "nextCleanupBucket (placed c e) = nextCleanupBucket c"
  "length (buckets (placed c e)) = length (buckets c)"
  "heap (placed c e) e = (heap c e)\<lparr>ExpireBucket := targetBucket c\<rparr>"
  "Key (heap (placed c e) a) = Key (heap c a)"
  "Value (heap (placed c e) a) = Value (heap c a)"
  "ExpiresAt (heap (placed c e) a) = ExpiresAt (heap c a)"
  by (simp_all add: placed_def)

lemma placed_heap_other: "a \<noteq> e \<Longrightarrow> heap (placed c e) a = heap c a"
  by (simp add: placed_def)

lemma placed_entries:
  "b < length (buckets c) \<Longrightarrow>
   entries (buckets (placed c e) ! b) =
     (if b = unat (targetBucket c)
      then AList.update (Key (heap c e)) e (entries (buckets c ! b))
      else entries (buckets c ! b))"
  by (cases "b = unat (targetBucket c)") (simp_all add: placed_def)

lemma placed_lookup:
  "b < length (buckets c) \<Longrightarrow>
   map_of (entries (buckets (placed c e) ! b)) k =
     (if b = unat (targetBucket c) \<and> k = Key (heap c e) then Some e
      else map_of (entries (buckets c ! b)) k)"
  by (simp add: placed_entries AList.update_conv')

lemma placed_newestEntry:
  "b < length (buckets c) \<Longrightarrow>
   newestEntry (buckets (placed c e) ! b) =
     (if b = unat (targetBucket c)
      then max (newestEntry (buckets c ! b)) (ExpiresAt (heap c e))
      else newestEntry (buckets c ! b))"
  by (cases "b = unat (targetBucket c)") (simp_all add: placed_def)

lemma invar_placed:
  assumes ib: "invar_but c e"
  shows "invar (placed c e)"
proof -
  let ?c = "placed c e" and ?k = "Key (heap c e)" and ?b = "unat (targetBucket c)"
  have len: "length (buckets c) = numBuckets" and dq: "distinct (queue c)"
    and di: "distinct (map fst (items c))" and li: "length (items c) = length (queue c)"
    and cur: "unat (nextCleanupBucket c) < numBuckets" and e: "e \<in> set (queue c)"
    using ib by (simp_all add: invar_but_def)
  have it: "if a = e then k = ?k else item_ok c k a" if "map_of (items c) k = Some a" for k a
    using ib that unfolding invar_but_def by blast
  have qu: "a < nextAddr c \<and> map_of (items c) (Key (heap c a)) = Some a" if "a \<in> set (queue c)" for a
    using ib that unfolding invar_but_def by blast
  have bu: "bucket_ok c b" and nb: "map_of (entries (buckets c ! b)) k \<noteq> Some e"
    if "b < numBuckets" for b k
    using ib that unfolding invar_but_def by blast+
  have ke: "map_of (items c) ?k = Some e" using qu[OF e] by simp
  have tb: "?b < numBuckets" by (rule unat_targetBucket)
  have c2: "item_ok ?c k a" if ka: "map_of (items ?c) k = Some a" for k a
  proof (cases "a = e")
    case True
    have "k = ?k" using it[of k a] ka True by simp
    then show ?thesis using True e tb len by (simp add: item_ok_def placed_lookup)
  next
    case False
    have ok: "item_ok c k a" using it[of k a] ka False by simp
    have "k \<noteq> ?k" using ka ke False by auto
    then show ?thesis using ok False len by (simp add: item_ok_def placed_lookup placed_heap_other)
  qed
  have c4: "bucket_ok ?c b" if b: "b < numBuckets" for b
  proof -
    have d: "distinct (map fst (entries (buckets ?c ! b)))"
      using bucket_ok_distinct[OF bu[OF b]] b len
      by (clarsimp simp: placed_entries AList.distinct_update)
    have r: "map_of (items ?c) k = Some a \<and> unat (ExpireBucket (heap ?c a)) = b \<and>
          ExpiresAt (heap ?c a) \<le> newestEntry (buckets ?c ! b)"
      if m: "map_of (entries (buckets ?c ! b)) k = Some a" for k a
    proof (cases "b = ?b \<and> k = ?k")
      case True
      then have "a = e" using m b len by (simp add: placed_lookup)
      then show ?thesis using True ke b len by (simp add: placed_newestEntry)
    next
      case False
      then have m': "map_of (entries (buckets c ! b)) k = Some a"
        using m b len by (auto simp: placed_lookup split: if_splits)
      then have ne: "a \<noteq> e" using nb[OF b, of k] by auto
      note D = bucket_okD[OF bu[OF b] m']
      from D ne b len show ?thesis
        by (auto simp: placed_newestEntry placed_heap_other)
    qed
    show ?thesis unfolding bucket_ok_def using d r by blast
  qed
  show ?thesis
    unfolding invar_def
  proof (intro conjI allI impI ballI)
    show "length (buckets ?c) = numBuckets" using len by simp
    show "unat (nextCleanupBucket ?c) < numBuckets" using cur by simp
    show "distinct (queue ?c)" using dq by simp
    show "distinct (map fst (items ?c))" using di by simp
    show "length (items ?c) = length (queue ?c)" using li by simp
    show "item_ok ?c k a" if "map_of (items ?c) k = Some a" for k a by (rule c2[OF that])
    show "a < nextAddr ?c" if "a \<in> set (queue ?c)" for a using qu[of a] that by simp
    show "map_of (items ?c) (Key (heap ?c a)) = Some a" if "a \<in> set (queue ?c)" for a
      using qu[of a] that by simp
    show "bucket_ok ?c b'" if "b' < numBuckets" for b' by (rule c4[OF that])
  qed
qed

lemma item_okD:
  "item_ok c k e \<Longrightarrow> e \<in> set (queue c) \<and> Key (heap c e) = k \<and>
     unat (ExpireBucket (heap c e)) < numBuckets \<and>
     map_of (entries (buckets c ! unat (ExpireBucket (heap c e)))) k = Some e"
  by (simp add: item_ok_def)

lemma refreshed_fields [simp]:
  "queue (refreshed c e v x) = e # remove1 e (queue c)"
  "items (refreshed c e v x) = items c"
  "cap (refreshed c e v x) = cap c"
  "ttl (refreshed c e v x) = ttl c"
  "nextAddr (refreshed c e v x) = nextAddr c"
  "nextCleanupBucket (refreshed c e v x) = nextCleanupBucket c"
  "length (buckets (refreshed c e v x)) = length (buckets c)"
  "heap (refreshed c e v x) e = (heap c e)\<lparr>Value := v, ExpiresAt := x\<rparr>"
  "Key (heap (refreshed c e v x) a) = Key (heap c a)"
  "ExpireBucket (heap (refreshed c e v x) a) = ExpireBucket (heap c a)"
  by (simp_all add: refreshed_def)

lemma refreshed_heap_other: "a \<noteq> e \<Longrightarrow> heap (refreshed c e v x) a = heap c a"
  by (simp add: refreshed_def)

lemma refreshed_entries:
  "b < length (buckets c) \<Longrightarrow>
   entries (buckets (refreshed c e v x) ! b) =
     (if b = unat (ExpireBucket (heap c e))
      then AList.delete (Key (heap c e)) (entries (buckets c ! b))
      else entries (buckets c ! b))"
  by (cases "b = unat (ExpireBucket (heap c e))") (simp_all add: refreshed_def)

lemma refreshed_lookup:
  "b < length (buckets c) \<Longrightarrow>
   map_of (entries (buckets (refreshed c e v x) ! b)) k =
     (if b = unat (ExpireBucket (heap c e)) \<and> k = Key (heap c e) then None
      else map_of (entries (buckets c ! b)) k)"
  by (simp add: refreshed_entries AList.delete_conv')

lemma refreshed_newestEntry:
  "b < length (buckets c) \<Longrightarrow>
   newestEntry (buckets (refreshed c e v x) ! b) = newestEntry (buckets c ! b)"
  by (cases "b = unat (ExpireBucket (heap c e))") (simp_all add: refreshed_def)

lemma Add_present:
  assumes "length (buckets c) = numBuckets" and "map_of (items c) key = Some e"
    and "e \<in> set (queue c)" and "unat (ExpireBucket (heap c e)) < numBuckets"
  shows "Add c key v now = Inr (placed (refreshed c e v (now + ttl c)) e)"
proof -
  have "addToBucket (refreshed c e v (now + ttl c)) e = Inr (placed (refreshed c e v (now + ttl c)) e)"
    by (rule addToBucket_placed) (simp add: assms)
  then show ?thesis using assms
    by (simp add: Add_def removeFromBucket_def list_MoveToFront_def Let_def refreshed_def)
qed

lemma invar_but_refreshed:
  assumes inv: "invar c" and ke: "map_of (items c) key = Some e"
  shows "invar_but (refreshed c e v x) e"
proof -
  let ?c = "refreshed c e v x" and ?b = "unat (ExpireBucket (heap c e))"
  have len: "length (buckets c) = numBuckets" and dq: "distinct (queue c)"
    and di: "distinct (map fst (items c))" and li: "length (items c) = length (queue c)"
    and cur: "unat (nextCleanupBucket c) < numBuckets"
    using inv by (simp_all add: invar_def)
  note oke = item_okD[OF invarD_item[OF inv ke]]
  have e: "e \<in> set (queue c)" and key: "Key (heap c e) = key" using oke by simp_all
  have "queue c \<noteq> []" using e by auto
  then have c1: "length (items ?c) = length (queue ?c)" using li e by (simp add: length_remove1)
  have c2: "if a = e then k = Key (heap ?c e) else item_ok ?c k a"
    if ka: "map_of (items ?c) k = Some a" for k a
  proof (cases "a = e")
    case True
    have "map_of (items c) k = Some e" using ka True by simp
    from item_okD[OF invarD_item[OF inv this]] have "Key (heap c e) = k" by simp
    then show ?thesis using True by simp
  next
    case False
    have ka': "map_of (items c) k = Some a" using ka by simp
    note D = item_okD[OF invarD_item[OF inv ka']]
    have "k \<noteq> key" using ka' ke False by auto
    then show ?thesis using D False len key
      by (simp add: item_ok_def refreshed_lookup refreshed_heap_other)
  qed
  have c3: "a < nextAddr ?c \<and> map_of (items ?c) (Key (heap ?c a)) = Some a"
    if a: "a \<in> set (queue ?c)" for a
  proof -
    have "a \<in> set (queue c)" using a e set_remove1_subset[of e "queue c"] by auto
    from invarD_queue[OF inv this] show ?thesis by simp
  qed
  have c4: "bucket_ok ?c b \<and> (\<forall>k. map_of (entries (buckets ?c ! b)) k \<noteq> Some e)"
    if b: "b < numBuckets" for b
  proof -
    have ok: "bucket_ok c b" by (rule invarD_bucket[OF inv b])
    have d: "distinct (map fst (entries (buckets ?c ! b)))"
      using bucket_ok_distinct[OF ok] b len
      by (clarsimp simp: refreshed_entries AList.distinct_delete)
    have r: "map_of (items c) k = Some a \<and> unat (ExpireBucket (heap c a)) = b \<and>
          ExpiresAt (heap c a) \<le> newestEntry (buckets c ! b) \<and> a \<noteq> e"
      if m: "map_of (entries (buckets ?c ! b)) k = Some a" for k a
    proof -
      have m': "map_of (entries (buckets c ! b)) k = Some a"
        and nk: "\<not> (b = ?b \<and> k = Key (heap c e))"
        using m b len by (auto simp: refreshed_lookup split: if_splits)
      note D = bucket_okD[OF ok m']
      have "a \<noteq> e"
      proof
        assume ae: "a = e"
        then have "map_of (items c) k = Some e" using D by simp
        from item_okD[OF invarD_item[OF inv this]] have "Key (heap c e) = k" by simp
        moreover have "b = ?b" using D ae by simp
        ultimately show False using nk by simp
      qed
      then show ?thesis using D by simp
    qed
    have r': "map_of (items ?c) k = Some a \<and> unat (ExpireBucket (heap ?c a)) = b \<and>
          ExpiresAt (heap ?c a) \<le> newestEntry (buckets ?c ! b)"
      if m: "map_of (entries (buckets ?c ! b)) k = Some a" for k a
      using r[OF m] b len by (simp add: refreshed_heap_other refreshed_newestEntry)
    have ne: "map_of (entries (buckets ?c ! b)) k \<noteq> Some e" for k
      using r[of k e] by blast
    show ?thesis unfolding bucket_ok_def using d r' ne by blast
  qed
  show ?thesis
    unfolding invar_but_def
  proof (intro conjI allI impI ballI)
    show "length (buckets ?c) = numBuckets" using len by simp
    show "unat (nextCleanupBucket ?c) < numBuckets" using cur by simp
    show "distinct (queue ?c)" using dq by simp
    show "distinct (map fst (items ?c))" using di by simp
    show "length (items ?c) = length (queue ?c)" by (rule c1)
    show "e \<in> set (queue ?c)" by simp
    show "if a = e then k = Key (heap ?c e) else item_ok ?c k a"
      if "map_of (items ?c) k = Some a" for k a by (rule c2[OF that])
    show "a < nextAddr ?c" if "a \<in> set (queue ?c)" for a using c3[OF that] by simp
    show "map_of (items ?c) (Key (heap ?c a)) = Some a" if "a \<in> set (queue ?c)" for a
      using c3[OF that] by simp
    show "bucket_ok ?c b'" if "b' < numBuckets" for b' using c4[OF that] by simp
    show "map_of (entries (buckets ?c ! b')) k \<noteq> Some e" if "b' < numBuckets" for b' k
      using c4[OF that] by simp
  qed
qed

lemma invar_Add_present:
  assumes inv: "invar c" and ke: "map_of (items c) key = Some e"
  shows "Add c key v now = Inr (placed (refreshed c e v (now + ttl c)) e)"
    and "invar (placed (refreshed c e v (now + ttl c)) e)"
proof -
  note D = item_okD[OF invarD_item[OF inv ke]]
  have len: "length (buckets c) = numBuckets" using inv by (simp add: invar_def)
  show "Add c key v now = Inr (placed (refreshed c e v (now + ttl c)) e)"
    using Add_present[OF len ke] D by simp
  show "invar (placed (refreshed c e v (now + ttl c)) e)"
    by (rule invar_placed[OF invar_but_refreshed[OF inv ke]])
qed

lemma inserted_fields [simp]:
  "queue (inserted c key v x) = nextAddr c # queue c"
  "items (inserted c key v x) = AList.update key (nextAddr c) (items c)"
  "cap (inserted c key v x) = cap c"
  "ttl (inserted c key v x) = ttl c"
  "nextAddr (inserted c key v x) = Suc (nextAddr c)"
  "nextCleanupBucket (inserted c key v x) = nextCleanupBucket c"
  "buckets (inserted c key v x) = buckets c"
  "heap (inserted c key v x) (nextAddr c) = \<lparr>Key = key, Value = v, ExpiresAt = x, ExpireBucket = 0\<rparr>"
  by (simp_all add: inserted_def)

lemma inserted_heap_other: "a \<noteq> nextAddr c \<Longrightarrow> heap (inserted c key v x) a = heap c a"
  by (simp add: inserted_def)

lemma invar_but_inserted:
  assumes inv: "invar c" and nk: "map_of (items c) key = None"
  shows "invar_but (inserted c key v x) (nextAddr c)"
proof -
  let ?c = "inserted c key v x" and ?e = "nextAddr c"
  have len: "length (buckets c) = numBuckets" and dq: "distinct (queue c)"
    and di: "distinct (map fst (items c))" and li: "length (items c) = length (queue c)"
    and cur: "unat (nextCleanupBucket c) < numBuckets"
    using inv by (simp_all add: invar_def)
  have fresh: "?e \<notin> set (queue c)" using invarD_queue[OF inv, of ?e] by auto
  have look: "map_of (items ?c) k = (if k = key then Some ?e else map_of (items c) k)" for k
    by (simp add: AList.update_conv')
  have c2: "if a = ?e then k = Key (heap ?c ?e) else item_ok ?c k a"
    if ka: "map_of (items ?c) k = Some a" for k a
  proof (cases "k = key")
    case True
    then have "a = ?e" using ka by (simp add: AList.update_conv')
    then show ?thesis using True by simp
  next
    case False
    then have ka': "map_of (items c) k = Some a" using ka by (simp add: AList.update_conv')
    note D = item_okD[OF invarD_item[OF inv ka']]
    have ne: "a \<noteq> ?e" using D fresh by auto
    then show ?thesis using D by (simp add: item_ok_def inserted_heap_other)
  qed
  have c3: "a < nextAddr ?c \<and> map_of (items ?c) (Key (heap ?c a)) = Some a"
    if a: "a \<in> set (queue ?c)" for a
  proof (cases "a = ?e")
    case True
    then show ?thesis by (simp add: AList.update_conv')
  next
    case False
    then have a': "a \<in> set (queue c)" using a by simp
    note Q = invarD_queue[OF inv a']
    have "Key (heap c a) \<noteq> key" using Q nk by auto
    then show ?thesis using Q False by (simp add: AList.update_conv' inserted_heap_other)
  qed
  have c4: "bucket_ok ?c b \<and> (\<forall>k. map_of (entries (buckets ?c ! b)) k \<noteq> Some ?e)"
    if b: "b < numBuckets" for b
  proof -
    have ok: "bucket_ok c b" by (rule invarD_bucket[OF inv b])
    have r: "map_of (items c) k = Some a \<and> unat (ExpireBucket (heap c a)) = b \<and>
          ExpiresAt (heap c a) \<le> newestEntry (buckets c ! b) \<and> a \<noteq> ?e \<and> k \<noteq> key"
      if m: "map_of (entries (buckets c ! b)) k = Some a" for k a
    proof -
      note D = bucket_okD[OF ok m]
      then have ka: "map_of (items c) k = Some a" by simp
      have "a \<in> set (queue c)" using item_okD[OF invarD_item[OF inv ka]] by simp
      then have "a \<noteq> ?e" using fresh by auto
      moreover have "k \<noteq> key" using ka nk by auto
      ultimately show ?thesis using D by simp
    qed
    have r': "map_of (items ?c) k = Some a \<and> unat (ExpireBucket (heap ?c a)) = b \<and>
          ExpiresAt (heap ?c a) \<le> newestEntry (buckets ?c ! b)"
      if m: "map_of (entries (buckets ?c ! b)) k = Some a" for k a
    proof -
      have m': "map_of (entries (buckets c ! b)) k = Some a" using m by simp
      show ?thesis using r[OF m'] by (simp add: AList.update_conv' inserted_heap_other)
    qed
    have ne: "map_of (entries (buckets ?c ! b)) k \<noteq> Some ?e" for k
      using r[of k ?e] by auto
    have d: "distinct (map fst (entries (buckets ?c ! b)))"
      using bucket_ok_distinct[OF ok] by simp
    show ?thesis unfolding bucket_ok_def using d r' ne by blast
  qed
  show ?thesis
    unfolding invar_but_def
  proof (intro conjI allI impI ballI)
    show "length (buckets ?c) = numBuckets" using len by simp
    show "unat (nextCleanupBucket ?c) < numBuckets" using cur by simp
    show "distinct (queue ?c)" using dq fresh by simp
    show "distinct (map fst (items ?c))" using di by (simp add: AList.distinct_update)
    show "length (items ?c) = length (queue ?c)" using li by (simp add: length_update_absent[OF nk])
    show "?e \<in> set (queue ?c)" by simp
    show "if a = ?e then k = Key (heap ?c ?e) else item_ok ?c k a"
      if "map_of (items ?c) k = Some a" for k a by (rule c2[OF that])
    show "a < nextAddr ?c" if "a \<in> set (queue ?c)" for a using c3[OF that] by simp
    show "map_of (items ?c) (Key (heap ?c a)) = Some a" if "a \<in> set (queue ?c)" for a
      using c3[OF that] by simp
    show "bucket_ok ?c b'" if "b' < numBuckets" for b' using c4[OF that] by simp
    show "map_of (entries (buckets ?c ! b')) k \<noteq> Some ?e" if "b' < numBuckets" for b' k
      using c4[OF that] by simp
  qed
qed

lemma invar_removeElement:
  assumes inv: "invar c" and e: "e \<in> set (queue c)"
  shows "removeElement c e = Inr (removed c e)" and "invar (removed c e)"
proof -
  have ke: "map_of (items c) (Key (heap c e)) = Some e" using invarD_queue[OF inv e] by simp
  have "unat (ExpireBucket (heap c e)) < length (buckets c)"
    using item_okD[OF invarD_item[OF inv ke]] inv by (simp add: invar_def)
  then show "removeElement c e = Inr (removed c e)" by (rule removeElement_removed)
  show "invar (removed c e)" by (rule invar_removed[OF inv e])
qed

lemma invar_removeOldest:
  assumes inv: "invar c"
  shows "removeOldest c = Inr (evicted c)" and "invar (evicted c)"
proof -
  show "removeOldest c = Inr (evicted c)"
    using invar_removeElement(1)[OF inv, of "last (queue c)"]
    by (simp add: removeOldest_def list_Back_def evicted_def)
  show "invar (evicted c)"
    using invar_removeElement(2)[OF inv, of "last (queue c)"] inv
    by (simp add: evicted_def)
qed

lemma evicted_absent:
  "map_of (items c) key = None \<Longrightarrow> map_of (items (evicted c)) key = None"
  by (simp add: evicted_def AList.delete_conv')

lemma invar_Add_absent:
  assumes inv: "invar c" and nk: "map_of (items c) key = None"
  shows "Add c key v now =
           Inr (placed (inserted (made_room c) key v (now + ttl c)) (nextAddr c))"
    and "invar (placed (inserted (made_room c) key v (now + ttl c)) (nextAddr c))"
proof -
  let ?c1 = "made_room c"
  have i1: "invar ?c1" using invar_removeOldest(2)[OF inv] inv by (simp add: made_room_def)
  have n1: "map_of (items ?c1) key = None" using evicted_absent[OF nk] nk by (simp add: made_room_def)
  have na: "nextAddr ?c1 = nextAddr c" and tt: "ttl ?c1 = ttl c"
    by (simp_all add: made_room_def evicted_def)
  have ro: "(if int (length (items c)) = cap c then removeOldest c else Inr c) = Inr ?c1"
    using invar_removeOldest(1)[OF inv] by (simp add: made_room_def)
  note ib = invar_but_inserted[OF i1 n1, of v "now + ttl c"]
  have len: "length (buckets (inserted ?c1 key v (now + ttl c))) = numBuckets"
    using ib by (simp add: invar_but_def)
  have "Add c key v now = addToBucket (inserted ?c1 key v (now + ttl c)) (nextAddr c)"
    using nk ro by (simp add: Add_def Let_def inserted_def list_PushFront_def na tt)
  then show "Add c key v now =
           Inr (placed (inserted (made_room c) key v (now + ttl c)) (nextAddr c))"
    using addToBucket_placed[OF len] by simp
  show "invar (placed (inserted (made_room c) key v (now + ttl c)) (nextAddr c))"
    using invar_placed[OF ib] by (simp add: na)
qed

lemma invar_requeue:
  assumes inv: "invar c" and s: "set q = set (queue c)" and d: "distinct q"
  shows "invar (c\<lparr>queue := q\<rparr>)"
proof -
  have l: "length q = length (queue c)"
    using s d inv distinct_card[of q] distinct_card[of "queue c"] by (simp add: invar_def)
  have b: "bucket_ok (c\<lparr>queue := q\<rparr>) b = bucket_ok c b" for b by (simp add: bucket_ok_def)
  have i: "item_ok (c\<lparr>queue := q\<rparr>) k e = item_ok c k e" for k e by (simp add: item_ok_def s)
  show ?thesis using inv l d unfolding invar_def b i by (simp add: s)
qed

lemma invar_MoveToFront:
  assumes inv: "invar c"
  shows "invar (c\<lparr>queue := list_MoveToFront (queue c) e\<rparr>)"
proof (cases "e \<in> set (queue c)")
  case True
  have dq: "distinct (queue c)" using inv by (simp add: invar_def)
  have "set (e # remove1 e (queue c)) = set (queue c)" using True dq by auto
  moreover have "distinct (e # remove1 e (queue c))" using dq by simp
  ultimately have "invar (c\<lparr>queue := e # remove1 e (queue c)\<rparr>)" by (rule invar_requeue[OF inv])
  then show ?thesis using True by (simp add: list_MoveToFront_def)
next
  case False
  then show ?thesis using inv by (simp add: list_MoveToFront_def)
qed

lemma invar_Get: "invar c \<Longrightarrow> invar (snd (Get c key now))"
  by (auto simp: Get_def invar_MoveToFront split: option.splits)

lemma invar_Remove:
  assumes inv: "invar c"
  shows "Remove c key =
           (case map_of (items c) key of None \<Rightarrow> Inr (False, c) | Some e \<Rightarrow> Inr (True, removed c e))"
    and "invar (case map_of (items c) key of None \<Rightarrow> c | Some e \<Rightarrow> removed c e)"
proof -
  have r: "removeElement c e = Inr (removed c e) \<and> invar (removed c e)"
    if "map_of (items c) key = Some e" for e
  proof -
    have "e \<in> set (queue c)" using item_okD[OF invarD_item[OF inv that]] by simp
    from invar_removeElement[OF inv this] show ?thesis by simp
  qed
  show "Remove c key =
           (case map_of (items c) key of None \<Rightarrow> Inr (False, c) | Some e \<Rightarrow> Inr (True, removed c e))"
    using r by (simp add: Remove_def split: option.splits)
  show "invar (case map_of (items c) key of None \<Rightarrow> c | Some e \<Rightarrow> removed c e)"
    using r inv by (simp split: option.splits)
qed

lemma invar_RemoveOldest:
  assumes inv: "invar c"
  shows "RemoveOldest c =
           (if queue c = [] then Inr (([], None, False), c)
            else Inr ((Key (heap c (last (queue c))), Value (heap c (last (queue c))), True),
                      removed c (last (queue c))))"
    and "invar (evicted c)"
proof -
  have r: "removeElement c (last (queue c)) = Inr (removed c (last (queue c)))" if "queue c \<noteq> []"
    using invar_removeElement(1)[OF inv, of "last (queue c)"] that by simp
  show "RemoveOldest c =
           (if queue c = [] then Inr (([], None, False), c)
            else Inr ((Key (heap c (last (queue c))), Value (heap c (last (queue c))), True),
                      removed c (last (queue c))))"
    using r by (simp add: RemoveOldest_def list_Back_def)
  show "invar (evicted c)" by (rule invar_removeOldest(2)[OF inv])
qed

lemma fold_delete:
  "fold AList.delete ks al = filter (\<lambda>p. fst p \<notin> set ks) al"
proof (induction ks arbitrary: al)
  case Nil
  then show ?case by simp
next
  case (Cons k ks)
  have "AList.delete k al = filter (\<lambda>p. fst p \<noteq> k) al"
    by (induction al) auto
  then show ?case using Cons by (simp add: conj_commute)
qed

lemma purgeEntries_filter:
  "(\<And>k a. map_of es k = Some a \<Longrightarrow> Key (h a) = k) \<Longrightarrow>
   purgeEntries h ks es = filter (\<lambda>p. fst p \<notin> set ks) es"
proof (induction ks arbitrary: es)
  case Nil
  then show ?case by simp
next
  case (Cons k ks)
  have del: "AList.delete k' es = filter (\<lambda>p. fst p \<noteq> k') es" for k'
    by (induction es) auto
  show ?case
  proof (cases "map_of es k")
    case None
    then have "k \<notin> fst ` set es" by (simp add: map_of_eq_None_iff)
    then have "filter (\<lambda>p. fst p \<notin> set (k # ks)) es = filter (\<lambda>p. fst p \<notin> set ks) es"
      by (intro filter_cong) auto
    then show ?thesis using None Cons.IH[of es] Cons.prems by simp
  next
    case (Some e)
    then have ke: "Key (h e) = k" by (rule Cons.prems)
    have "purgeEntries h ks (AList.delete k es) = filter (\<lambda>p. fst p \<notin> set ks) (AList.delete k es)"
    proof (rule Cons.IH)
      fix k' a assume "map_of (AList.delete k es) k' = Some a"
      then have "map_of es k' = Some a" by (auto simp: AList.delete_conv' split: if_splits)
      then show "Key (h a) = k'" by (rule Cons.prems)
    qed
    then show ?thesis using Some ke by (simp add: del conj_commute)
  qed
qed

lemma Purge_purged:
  assumes inv: "invar c"
  shows "Purge c = purged c"
proof -
  have "purgeEntries (heap c) (map fst (entries b)) (entries b) = []" if b: "b \<in> set (buckets c)" for b
  proof -
    obtain i where i: "i < length (buckets c)" "b = buckets c ! i"
      using b by (auto simp: in_set_conv_nth)
    then have ok: "bucket_ok c i" using invarD_bucket[OF inv, of i] inv by (simp add: invar_def)
    have "purgeEntries (heap c) (map fst (entries b)) (entries b) =
          filter (\<lambda>p. fst p \<notin> set (map fst (entries b))) (entries b)"
    proof (rule purgeEntries_filter)
      fix k a assume "map_of (entries b) k = Some a"
      then have "map_of (items c) k = Some a" using bucket_okD[OF ok] i by simp
      from item_okD[OF invarD_item[OF inv this]] show "Key (heap c a) = k" by simp
    qed
    then show ?thesis by simp
  qed
  then have "map (\<lambda>b. b\<lparr>entries := purgeEntries (heap c) (map fst (entries b)) (entries b)\<rparr>) (buckets c)
           = map (\<lambda>b. b\<lparr>entries := []\<rparr>) (buckets c)"
    by simp
  then show ?thesis by (simp add: Purge_def purged_def fold_delete)
qed

lemma invar_purged:
  assumes inv: "invar c"
  shows "invar (purged c)"
  using inv by (simp add: invar_def purged_def bucket_ok_def item_ok_def)

lemma invar_sweepEntries:
  "invar c \<Longrightarrow> b < numBuckets \<Longrightarrow> \<exists>c'. sweepEntries b ks c = Inr c' \<and> invar c'"
proof (induction ks arbitrary: c)
  case Nil
  then show ?case by simp
next
  case (Cons k ks)
  have len: "b < length (buckets c)" using Cons.prems by (simp add: invar_def)
  show ?case
  proof (cases "map_of (entries (buckets c ! b)) k")
    case None
    then show ?thesis using Cons len by simp
  next
    case (Some e)
    have "map_of (items c) k = Some e"
      using bucket_okD[OF invarD_bucket[OF Cons.prems(1) Cons.prems(2)] Some] by simp
    then have "e \<in> set (queue c)" using item_okD[OF invarD_item[OF Cons.prems(1)]] by simp
    note R = invar_removeElement[OF Cons.prems(1) this]
    from Cons.IH[OF R(2) Cons.prems(2)] show ?thesis using Some len R(1) by simp
  qed
qed

lemma invar_cursor:
  assumes inv: "invar c" and w: "unat w < numBuckets"
  shows "invar (c\<lparr>nextCleanupBucket := w\<rparr>)"
proof -
  have b: "bucket_ok (c\<lparr>nextCleanupBucket := w\<rparr>) b = bucket_ok c b" for b by (simp add: bucket_ok_def)
  have i: "item_ok (c\<lparr>nextCleanupBucket := w\<rparr>) k e = item_ok c k e" for k e by (simp add: item_ok_def)
  show ?thesis using inv w unfolding invar_def b i by simp
qed

lemma unat_next_cursor: "unat ((w + 1) mod of_nat numBuckets :: 8 word) < numBuckets"
  by (simp add: numBuckets_def unat_mod)

lemma invar_deleteExpired:
  assumes inv: "invar c"
  shows "\<exists>c'. map_sum id snd (deleteExpired c now) = Inr c' \<and> invar c'"
proof -
  have cur: "unat (nextCleanupBucket c) < numBuckets" and len: "length (buckets c) = numBuckets"
    using inv by (simp_all add: invar_def)
  obtain c' where s: "sweepEntries (unat (nextCleanupBucket c))
      (map fst (entries (buckets c ! unat (nextCleanupBucket c)))) c = Inr c'" and i: "invar c'"
    using invar_sweepEntries[OF inv cur] by blast
  have "invar (c'\<lparr>nextCleanupBucket := (nextCleanupBucket c' + 1) mod of_nat numBuckets\<rparr>)"
    by (rule invar_cursor[OF i unat_next_cursor])
  then show ?thesis using s cur len by (simp add: deleteExpired_def Let_def)
qed

lemma invar_Add:
  assumes inv: "invar c"
  shows "\<exists>c'. Add c key v now = Inr c' \<and> invar c'"
proof (cases "map_of (items c) key")
  case None
  from invar_Add_absent[OF inv None] show ?thesis by blast
next
  case (Some e)
  from invar_Add_present[OF inv Some] show ?thesis by blast
qed

lemma invar_step:
  assumes inv: "invar c"
  shows "\<exists>c'. step c x = Inr c' \<and> invar c'"
proof (cases x)
  case (OpAdd k v now)
  then show ?thesis using invar_Add[OF inv] by simp
next
  case (OpGet k now)
  then show ?thesis using invar_Get[OF inv] by simp
next
  case (OpRemove k)
  then show ?thesis using invar_Remove[OF inv, of k] by (simp split: option.splits)
next
  case OpRemoveOldest
  then show ?thesis using invar_RemoveOldest[OF inv] inv by (auto simp: evicted_def split: if_splits)
next
  case OpPurge
  then show ?thesis using invar_purged[OF inv] Purge_purged[OF inv] by simp
next
  case (OpDeleteExpired now)
  then show ?thesis using invar_deleteExpired[OF inv] by simp
qed

lemma invar_exec:
  "invar c \<Longrightarrow> \<exists>c'. exec c xs = Inr c' \<and> invar c'"
proof (induction xs arbitrary: c)
  case Nil
  then show ?case by simp
next
  case (Cons x xs)
  obtain c1 where s: "step c x = Inr c1" and i: "invar c1" using invar_step[OF Cons.prems] by blast
  from Cons.IH[OF i] show ?case using s by simp
qed

lemma exec_invar: "exec (NewLRU cap0 ttl0) xs = Inr c \<Longrightarrow> invar c"
  using invar_exec[OF invar_NewLRU, of cap0 ttl0 xs] by simp

lemma exec_total: "\<exists>c. exec (NewLRU cap0 ttl0) xs = Inr c"
  using invar_exec[OF invar_NewLRU, of cap0 ttl0 xs] by blast

lemma sweepEntries_frame:
  "invar c \<Longrightarrow> b < numBuckets \<Longrightarrow>
   \<exists>c'. sweepEntries b ks c = Inr c' \<and> cap c' = cap c \<and> ttl c' = ttl c \<and>
        length (items c') \<le> length (items c)"
proof (induction ks arbitrary: c)
  case Nil
  then show ?case by simp
next
  case (Cons k ks)
  have len: "b < length (buckets c)" using Cons.prems by (simp add: invar_def)
  show ?case
  proof (cases "map_of (entries (buckets c ! b)) k")
    case None
    then show ?thesis using Cons len by simp
  next
    case (Some e)
    have "map_of (items c) k = Some e"
      using bucket_okD[OF invarD_bucket[OF Cons.prems(1) Cons.prems(2)] Some] by simp
    then have "e \<in> set (queue c)" using item_okD[OF invarD_item[OF Cons.prems(1)]] by simp
    note R = invar_removeElement[OF Cons.prems(1) this]
    have "length (items (removed c e)) \<le> length (items c)" by (simp add: AList.length_delete_le)
    with Cons.IH[OF R(2) Cons.prems(2)] show ?thesis using Some len R(1) by auto
  qed
qed

lemma Add_frame:
  assumes inv: "invar c" and a: "Add c key v now = Inr c'"
  shows "cap c' = cap c \<and> ttl c' = ttl c"
proof (cases "map_of (items c) key")
  case None
  from invar_Add_absent(1)[OF inv None, of v now] a show ?thesis
    by (auto simp: made_room_def evicted_def)
next
  case (Some e)
  from invar_Add_present(1)[OF inv Some, of v now] a show ?thesis by auto
qed

lemma step_frame:
  assumes inv: "invar c" and s: "step c x = Inr c'"
  shows "cap c' = cap c \<and> ttl c' = ttl c"
proof (cases x)
  case (OpAdd k v now)
  then show ?thesis using Add_frame[OF inv] s by simp
next
  case (OpGet k now)
  then show ?thesis using s by (auto simp: Get_def split: option.splits if_splits)
next
  case (OpRemove k)
  then show ?thesis using invar_Remove(1)[OF inv, of k] s by (auto split: option.splits)
next
  case OpRemoveOldest
  then show ?thesis using invar_RemoveOldest(1)[OF inv] s by (auto split: if_splits)
next
  case OpPurge
  then show ?thesis using s by (auto simp: Purge_def)
next
  case (OpDeleteExpired now)
  have cur: "unat (nextCleanupBucket c) < numBuckets" and len: "length (buckets c) = numBuckets"
    using inv by (simp_all add: invar_def)
  obtain c1 where sw: "sweepEntries (unat (nextCleanupBucket c))
      (map fst (entries (buckets c ! unat (nextCleanupBucket c)))) c = Inr c1"
    and f: "cap c1 = cap c" "ttl c1 = ttl c"
    using sweepEntries_frame[OF inv cur] by blast
  have "c' = c1\<lparr>nextCleanupBucket := (nextCleanupBucket c1 + 1) mod of_nat numBuckets\<rparr>"
    using s OpDeleteExpired sw cur len by (simp add: deleteExpired_def Let_def)
  then show ?thesis using f by simp
qed

lemma exec_frame:
  "invar c \<Longrightarrow> exec c xs = Inr c' \<Longrightarrow> cap c' = cap c \<and> ttl c' = ttl c"
proof (induction xs arbitrary: c)
  case Nil
  then show ?case by simp
next
  case (Cons x xs)
  obtain c1 where s: "step c x = Inr c1" and i: "invar c1" using invar_step[OF Cons.prems(1)] by blast
  have "exec c1 xs = Inr c'" using Cons.prems(2) s by simp
  from Cons.IH[OF i this] step_frame[OF Cons.prems(1) s] show ?case by simp
qed

lemma exec_config:
  assumes "exec (NewLRU cap0 ttl0) xs = Inr c"
  shows "cap c = max 0 cap0" and "ttl c = max 0 ttl0"
  using exec_frame[OF invar_NewLRU assms] by (simp_all add: NewLRU_def max_def)

lemma Add_cap:
  assumes inv: "invar c" and c1: "1 \<le> cap c" and ok: "int (length (items c)) \<le> cap c"
    and a: "Add c key v now = Inr c'"
  shows "int (length (items c')) \<le> cap c"
proof (cases "map_of (items c) key")
  case (Some e)
  from invar_Add_present(1)[OF inv Some, of v now] a ok show ?thesis by auto
next
  case None
  have di: "distinct (map fst (items c))" and li: "length (items c) = length (queue c)"
    using inv by (simp_all add: invar_def)
  have room: "int (length (items (made_room c))) < cap c \<and> map_of (items (made_room c)) key = None"
  proof (cases "int (length (items c)) = cap c")
    case False
    then show ?thesis using ok None by (simp add: made_room_def)
  next
    case True
    then have ne: "queue c \<noteq> []" using c1 li by auto
    then have "last (queue c) \<in> set (queue c)" by simp
    from invarD_queue[OF inv this]
    have "map_of (items c) (Key (heap c (last (queue c)))) = Some (last (queue c))" by simp
    from length_delete_present[OF di this] True ne evicted_absent[OF None] show ?thesis
      by (simp add: made_room_def evicted_def)
  qed
  then have "length (items (inserted (made_room c) key v (now + ttl c))) = Suc (length (items (made_room c)))"
    by (simp add: length_update_absent)
  with room invar_Add_absent(1)[OF inv None, of v now] a show ?thesis by auto
qed

lemma step_cap:
  assumes inv: "invar c" and c1: "1 \<le> cap c" and ok: "int (length (items c)) \<le> cap c"
    and s: "step c x = Inr c'"
  shows "int (length (items c')) \<le> cap c"
proof (cases x)
  case (OpAdd k v now)
  then show ?thesis using Add_cap[OF inv c1 ok] s by simp
next
  case (OpGet k now)
  then show ?thesis using s ok by (auto simp: Get_def split: option.splits if_splits)
next
  case (OpRemove k)
  have "length (AList.delete k' (items c)) \<le> length (items c)" for k'
    by (rule AList.length_delete_le)
  then have "length (items (removed c e)) \<le> length (items c)" for e by simp
  then have "length (items c') \<le> length (items c)"
    using OpRemove invar_Remove(1)[OF inv, of k] s by (cases "map_of (items c) k") auto
  then show ?thesis using ok by simp
next
  case OpRemoveOldest
  have "length (AList.delete k' (items c)) \<le> length (items c)" for k'
    by (rule AList.length_delete_le)
  then have "length (items (removed c e)) \<le> length (items c)" for e by simp
  then have "length (items c') \<le> length (items c)"
    using OpRemoveOldest invar_RemoveOldest(1)[OF inv] s by (cases "queue c = []") auto
  then show ?thesis using ok by simp
next
  case OpPurge
  then show ?thesis using s c1 Purge_purged[OF inv] by (auto simp: purged_def)
next
  case (OpDeleteExpired now)
  have cur: "unat (nextCleanupBucket c) < numBuckets" and len: "length (buckets c) = numBuckets"
    using inv by (simp_all add: invar_def)
  obtain c1 where sw: "sweepEntries (unat (nextCleanupBucket c))
      (map fst (entries (buckets c ! unat (nextCleanupBucket c)))) c = Inr c1"
    and f: "length (items c1) \<le> length (items c)"
    using sweepEntries_frame[OF inv cur] by blast
  have "c' = c1\<lparr>nextCleanupBucket := (nextCleanupBucket c1 + 1) mod of_nat numBuckets\<rparr>"
    using s OpDeleteExpired sw cur len by (simp add: deleteExpired_def Let_def)
  then show ?thesis using f ok by simp
qed

lemma exec_cap:
  "invar c \<Longrightarrow> 1 \<le> cap c \<Longrightarrow> int (length (items c)) \<le> cap c \<Longrightarrow> exec c xs = Inr c' \<Longrightarrow>
   int (length (items c')) \<le> cap c"
proof (induction xs arbitrary: c)
  case Nil
  then show ?case by simp
next
  case (Cons x xs)
  obtain c1 where s: "step c x = Inr c1" and i: "invar c1" using invar_step[OF Cons.prems(1)] by blast
  have e: "exec c1 xs = Inr c'" using Cons.prems(4) s by simp
  note f = step_frame[OF Cons.prems(1) s]
  have "int (length (items c1)) \<le> cap c1"
    using step_cap[OF Cons.prems(1) Cons.prems(2) Cons.prems(3) s] f by simp
  from Cons.IH[OF i _ this e] Cons.prems(2) f show ?case by simp
qed

lemma targetBucket_formula:
  assumes "unat (nextCleanupBucket c) < numBuckets"
  shows "unat (targetBucket c) =
         nat ((int (unat (nextCleanupBucket c)) - 1 + int numBuckets) mod int numBuckets)"
proof -
  let ?w = "nextCleanupBucket c"
  have w: "unat ?w < 100" using assms by (simp add: numBuckets_def)
  have "of_nat numBuckets + ?w - 1 = 99 + ?w" by (simp add: numBuckets_def)
  moreover have "unat (99 + ?w) = 99 + unat ?w"
    using w by (simp add: unat_add_lem[THEN iffD1])
  ultimately have "unat (targetBucket c) = (99 + unat ?w) mod 100"
    by (simp add: targetBucket_def unat_mod numBuckets_def)
  also have "\<dots> = nat ((int (unat ?w) - 1 + 100) mod 100)"
    by (simp add: nat_mod_distrib nat_add_distrib)
  finally show ?thesis by (simp add: numBuckets_def)
qed

lemma targetBucket_cong:
  "nextCleanupBucket c' = nextCleanupBucket c \<Longrightarrow> targetBucket c' = targetBucket c"
  by (simp add: targetBucket_def)

lemma no_bucket_without_item:
  assumes inv: "invar c" and nk: "map_of (items c) key = None" and b: "b < numBuckets"
  shows "map_of (entries (buckets c ! b)) key = None"
proof (cases "map_of (entries (buckets c ! b)) key")
  case None
  then show ?thesis .
next
  case (Some a)
  from bucket_okD[OF invarD_bucket[OF inv b] Some] nk show ?thesis by simp
qed

lemma only_own_bucket:
  assumes inv: "invar c" and ke: "map_of (items c) key = Some e" and b: "b < numBuckets"
    and nb: "b \<noteq> unat (ExpireBucket (heap c e))"
  shows "map_of (entries (buckets c ! b)) key = None"
proof (cases "map_of (entries (buckets c ! b)) key")
  case None
  then show ?thesis .
next
  case (Some a)
  from bucket_okD[OF invarD_bucket[OF inv b] Some] ke nb show ?thesis by auto
qed

lemma made_room_fields [simp]:
  "nextCleanupBucket (made_room c) = nextCleanupBucket c"
  "nextAddr (made_room c) = nextAddr c"
  "ttl (made_room c) = ttl c"
  "cap (made_room c) = cap c"
  "length (buckets (made_room c)) = length (buckets c)"
  by (simp_all add: made_room_def evicted_def)

lemma made_room_newestEntry:
  "b < length (buckets c) \<Longrightarrow> newestEntry (buckets (made_room c) ! b) = newestEntry (buckets c ! b)"
  by (simp add: made_room_def evicted_def removed_newestEntry)

lemma invar_made_room: "invar c \<Longrightarrow> invar (made_room c)"
  using invar_removeOldest(2)[of c] by (simp add: made_room_def)

lemma made_room_absent:
  "map_of (items c) key = None \<Longrightarrow> map_of (items (made_room c)) key = None"
  by (simp add: made_room_def evicted_absent)

lemma remove1_last:
  assumes "distinct q" and "q \<noteq> []"
  shows "remove1 (last q) q = butlast q"
proof -
  have q: "q = butlast q @ [last q]" using assms(2) by simp
  then have "last q \<notin> set (butlast q)" using assms(1) by (metis distinct_butlast not_distinct_conv_prefix distinct_append disjoint_iff list.set_intros(1))
  then have "remove1 (last q) (butlast q @ [last q]) = butlast q" by (simp add: remove1_append)
  then show ?thesis using q by simp
qed

subsection \<open>The order in which a sweep visits the bucket does not matter\<close>

text \<open>
  Go leaves the order of a \<^verbatim>\<open>range\<close> over a map unspecified; \<open>sweepEntries\<close> visits the
  keys in the order of the association list. On a cache that satisfies the invariant the
  loop leaves the same cache for every list of the same keys (\<open>sweepEntries_order\<close>), the
  one \<open>swept\<close> describes, and a sweep leaves its bucket empty. For \<^verbatim>\<open>Purge\<close> the same
  follows from \<open>purgeEntries_filter\<close>, which holds for every list of keys.
\<close>

lemma delete_filter: "AList.delete k al = filter (\<lambda>p. fst p \<noteq> k) al"
  by (induction al) auto

lemma swept_empty: "b < length (buckets c) \<Longrightarrow> swept c b {} = c"
  by (simp add: swept_def)

lemma swept_removed:
  assumes inv: "invar c" and b: "b < numBuckets"
    and m: "map_of (entries (buckets c ! b)) k = Some e"
  shows "swept (removed c e) b K = swept c b (insert k K)"
proof -
  have len: "length (buckets c) = numBuckets" and dq: "distinct (queue c)"
    using inv by (simp_all add: invar_def)
  note D = bucket_okD[OF invarD_bucket[OF inv b] m]
  then have ke: "map_of (items c) k = Some e" and eb: "unat (ExpireBucket (heap c e)) = b" by simp_all
  have key: "Key (heap c e) = k" using item_okD[OF invarD_item[OF inv ke]] by simp
  have inj: "a = e \<longleftrightarrow> Key (heap c a) = k" if "a \<in> set (queue c)" for a
    using invarD_queue[OF inv that] ke key by auto
  have "remove1 e (queue c) = filter (\<lambda>a. a \<noteq> e) (queue c)"
    using dq by (simp add: distinct_remove1_removeAll removeAll_filter_not_eq) metis
  also have "\<dots> = filter (\<lambda>a. Key (heap c a) \<noteq> k) (queue c)"
    by (rule filter_cong) (use inj in auto)
  finally have q: "remove1 e (queue c) = filter (\<lambda>a. Key (heap c a) \<noteq> k) (queue c)" .
  have bk: "buckets (removed c e) ! b =
        (buckets c ! b)\<lparr>entries := filter (\<lambda>p. fst p \<noteq> k) (entries (buckets c ! b))\<rparr>"
    using b len by (simp add: removed_def eb key delete_filter)
  have bs: "(buckets (removed c e))[b := x] = (buckets c)[b := x]" for x
    by (simp add: removed_def eb)
  show ?thesis
    unfolding swept_def
    by (simp add: bk bs q key delete_filter conj_commute)
qed

lemma sweepEntries_swept:
  "invar c \<Longrightarrow> b < numBuckets \<Longrightarrow>
   sweepEntries b ks c = Inr (swept c b (set ks \<inter> fst ` set (entries (buckets c ! b))))"
proof (induction ks arbitrary: c)
  case Nil
  then show ?case by (simp add: swept_empty invar_def)
next
  case (Cons k ks)
  have len: "length (buckets c) = numBuckets" using Cons.prems by (simp add: invar_def)
  then have bl: "b < length (buckets c)" using Cons.prems by simp
  let ?es = "entries (buckets c ! b)"
  show ?case
  proof (cases "map_of ?es k")
    case None
    then have "k \<notin> fst ` set ?es" by (simp add: map_of_eq_None_iff)
    then have "set (k # ks) \<inter> fst ` set ?es = set ks \<inter> fst ` set ?es" by auto
    then show ?thesis using None bl Cons.IH[OF Cons.prems] by simp
  next
    case (Some e)
    note D = bucket_okD[OF invarD_bucket[OF Cons.prems] Some]
    then have ke: "map_of (items c) k = Some e" and eb: "unat (ExpireBucket (heap c e)) = b" by simp_all
    note I = item_okD[OF invarD_item[OF Cons.prems(1) ke]]
    then have e: "e \<in> set (queue c)" and key: "Key (heap c e) = k" by simp_all
    note R = invar_removeElement[OF Cons.prems(1) e]
    have kin: "k \<in> fst ` set ?es" using map_of_SomeD[OF Some] by force
    have es': "entries (buckets (removed c e) ! b) = filter (\<lambda>p. fst p \<noteq> k) ?es"
      using bl by (simp add: removed_entries eb key delete_filter)
    have "set ks \<inter> fst ` set (entries (buckets (removed c e) ! b)) = (set ks \<inter> fst ` set ?es) - {k}"
      unfolding es' by auto
    then have "insert k (set ks \<inter> fst ` set (entries (buckets (removed c e) ! b))) =
               set (k # ks) \<inter> fst ` set ?es"
      using kin by auto
    then have "swept (removed c e) b (set ks \<inter> fst ` set (entries (buckets (removed c e) ! b))) =
               swept c b (set (k # ks) \<inter> fst ` set ?es)"
      using swept_removed[OF Cons.prems Some] by simp
    then show ?thesis using Some bl R(1) Cons.IH[OF R(2) Cons.prems(2)] by simp
  qed
qed

lemma sweepEntries_order:
  "invar c \<Longrightarrow> b < numBuckets \<Longrightarrow> set ks = set ks' \<Longrightarrow> sweepEntries b ks c = sweepEntries b ks' c"
  by (simp add: sweepEntries_swept)

lemma deleteExpired_swept:
  assumes inv: "invar c"
  shows "map_sum id snd (deleteExpired c now) =
         Inr ((swept c (unat (nextCleanupBucket c)) (fst ` set (entries (buckets c ! unat (nextCleanupBucket c)))))
               \<lparr>nextCleanupBucket := (nextCleanupBucket c + 1) mod of_nat numBuckets\<rparr>)"
proof -
  have cur: "unat (nextCleanupBucket c) < numBuckets" and len: "length (buckets c) = numBuckets"
    using inv by (simp_all add: invar_def)
  show ?thesis
    using cur len sweepEntries_swept[OF inv cur, of "map fst (entries (buckets c ! unat (nextCleanupBucket c)))"]
    by (simp add: deleteExpired_def Let_def swept_def)
qed

lemma deleteExpired_empties_bucket:
  assumes inv: "invar c" and d: "deleteExpired c now = Inr (s, c')"
  shows "entries (buckets c' ! unat (nextCleanupBucket c)) = []"
proof -
  have cur: "unat (nextCleanupBucket c) < numBuckets" and len: "length (buckets c) = numBuckets"
    using inv by (simp_all add: invar_def)
  from deleteExpired_swept[OF inv, of now] d cur len show ?thesis
    by (auto simp: swept_def)
qed

section \<open>Evaluating the operations\<close>

lemmas op_defs = NewLRU_def Add_def Get_def Remove_def RemoveOldest_def addToBucket_def
  removeFromBucket_def removeOldest_def removeElement_def numBuckets_def list_MoveToFront_def
  list_Back_def list_Remove_def list_PushFront_def Let_def

lemmas run_defs = op_defs deleteExpired_def Purge_def

section \<open>Claims\<close>

text \<open>
  In the theorems below a cache \<open>c\<close> with \<open>exec (NewLRU cp life) xs = Inr c\<close> is any
  cache the program can reach: built by \<^verbatim>\<open>NewLRU\<close> with capacity \<open>cp\<close> and time-to-live
  \<open>life\<close> and then driven by the calls \<open>xs\<close>, sweeps included.
\<close>

text \<open>
  C1. Capacity invariant. For a capacity \<open>cp \<ge> 1\<close>, after every prefix (\<open>take n\<close>) of a
  sequence of \<^verbatim>\<open>Add\<close> calls with distinct keys on a fresh cache, no call has panicked and
  the key index holds at most \<open>cp\<close> entries.
\<close>

theorem capacity_invariant:
  assumes "1 \<le> cp" and "distinct (map fst adds)"
  shows "\<exists>c. exec (NewLRU cp life) (map (\<lambda>(k, v, now). OpAdd k v now) (take n adds)) = Inr c \<and>
             int (length (items c)) \<le> cp"
proof -
  let ?xs = "map (\<lambda>(k, v, now). OpAdd k v now) (take n adds)"
  obtain c :: "'a LRU" where e: "exec (NewLRU cp life) ?xs = Inr c" using exec_total by blast
  have "int (length (items c)) \<le> cap (NewLRU cp life :: 'a LRU)"
    by (rule exec_cap[OF invar_NewLRU _ _ e]) (use assms in \<open>simp_all add: NewLRU_def\<close>)
  then show ?thesis using e assms by (auto simp: NewLRU_def)
qed

theorem capacity_invariant_witness:
  "(1::int) \<le> 2 \<and> distinct (map fst [(''A'', Some (1::nat), 1::int), (''B'', Some 2, 2), (''C'', Some 3, 3)]) \<and>
   (\<exists>c. exec (NewLRU 2 10) (map (\<lambda>(k, v, now). OpAdd k v now)
            (take 3 [(''A'', Some (1::nat), 1::int), (''B'', Some 2, 2), (''C'', Some 3, 3)])) = Inr c \<and>
        int (length (items c)) \<le> 2)"
  using capacity_invariant [where cp = 2 and life = 10 and n = 3
      and adds = "[(''A'', Some (1::nat), 1::int), (''B'', Some 2, 2), (''C'', Some 3, 3)]"]
  by simp

text \<open>
  C2. Contract of \<^verbatim>\<open>Get\<close> on a reachable cache, whatever sweeps have or have not run: a
  key absent from the key index is not found, and the cache is unchanged; a key present whose
  expiry is strictly before the clock is not found; any other present key is returned with
  its stored value and \<open>found = true\<close>, and its element is moved to the front of the
  recency list.
\<close>

theorem Get_contract:
  assumes "exec (NewLRU cp life) xs = Inr c"
  shows "(map_of (items c) key = None \<longrightarrow> Get c key now = ((None, False), c)) \<and>
         (\<forall>e. map_of (items c) key = Some e \<and> ExpiresAt (heap c e) < now \<longrightarrow>
              fst (Get c key now) = (None, False)) \<and>
         (\<forall>e. map_of (items c) key = Some e \<and> \<not> ExpiresAt (heap c e) < now \<longrightarrow>
              Get c key now = ((Value (heap c e), True), c\<lparr>queue := e # remove1 e (queue c)\<rparr>))"
proof -
  have inv: "invar c" by (rule exec_invar[OF assms])
  have "e \<in> set (queue c)" if "map_of (items c) key = Some e" for e
    using item_okD[OF invarD_item[OF inv that]] by simp
  then show ?thesis by (auto simp: Get_def list_MoveToFront_def)
qed

theorem Get_contract_witness:
  "exec (NewLRU 2 10) [OpAdd ''A'' (Some (1::nat)) 1] =
     Inr (projr (exec (NewLRU 2 10) [OpAdd ''A'' (Some (1::nat)) 1])) \<and>
   map_of (items (projr (exec (NewLRU 2 10) [OpAdd ''A'' (Some (1::nat)) 1]))) ''Z'' = None \<and>
   Get (projr (exec (NewLRU 2 10) [OpAdd ''A'' (Some (1::nat)) 1])) ''Z'' 5 =
     ((None, False), projr (exec (NewLRU 2 10) [OpAdd ''A'' (Some (1::nat)) 1])) \<and>
   map_of (items (projr (exec (NewLRU 2 10) [OpAdd ''A'' (Some (1::nat)) 1]))) ''A'' = Some 0 \<and>
   ExpiresAt (heap (projr (exec (NewLRU 2 10) [OpAdd ''A'' (Some (1::nat)) 1])) 0) < 100 \<and>
   fst (Get (projr (exec (NewLRU 2 10) [OpAdd ''A'' (Some (1::nat)) 1])) ''A'' 100) = (None, False) \<and>
   \<not> ExpiresAt (heap (projr (exec (NewLRU 2 10) [OpAdd ''A'' (Some (1::nat)) 1])) 0) < 5 \<and>
   fst (Get (projr (exec (NewLRU 2 10) [OpAdd ''A'' (Some (1::nat)) 1])) ''A'' 5) = (Some 1, True) \<and>
   queue (snd (Get (projr (exec (NewLRU 2 10) [OpAdd ''A'' (Some (1::nat)) 1])) ''A'' 5)) = [0]"
proof -
  let ?c = "projr (exec (NewLRU 2 10) [OpAdd ''A'' (Some (1::nat)) 1])"
  have r: "exec (NewLRU 2 10) [OpAdd ''A'' (Some (1::nat)) 1] = Inr ?c" by (simp add: op_defs)
  have z: "map_of (items ?c) ''Z'' = None" by (simp add: op_defs)
  have a: "map_of (items ?c) ''A'' = Some 0" by (simp add: op_defs)
  have x: "ExpiresAt (heap ?c 0) = 11" "Value (heap ?c 0) = Some 1" "queue ?c = [0]"
    by (simp_all add: op_defs)
  from Get_contract [OF r, of "''Z''" 5] Get_contract [OF r, of "''A''" 100]
    Get_contract [OF r, of "''A''" 5] r z a x
  show ?thesis by simp
qed

text \<open>
  C3. The spec says that a cache built with \<open>ttl = 0\<close> never expires an entry. The code
  stamps \<open>ExpiresAt = now + 0\<close> in \<^verbatim>\<open>Add\<close> and \<^verbatim>\<open>Get\<close> compares the clock with it, so
  an entry added at instant 10 expires at 10: it is found at instant 10 and already reported
  absent at instant 11.
\<close>

theorem ttl_zero_expires_at_once:
  "(case Add (NewLRU 2 0) ''A'' (Some (1::nat)) 10 of
      Inl err \<Rightarrow> None
    | Inr c \<Rightarrow> Some (ExpiresAt (heap c 0), fst (Get c ''A'' 10), fst (Get c ''A'' 11))) =
   Some (10, (Some 1, True), (None, False))"
  by (simp add: op_defs)

text \<open>
  C4. LRU eviction order. On a fresh cache of capacity 2 and time-to-live \<open>d\<close>,
  \<^verbatim>\<open>Add(A)\<close> at \<open>ta\<close>, \<^verbatim>\<open>Add(B)\<close> at \<open>tb\<close>, \<^verbatim>\<open>Get(A)\<close> at \<open>tg\<close> and
  \<^verbatim>\<open>Add(C)\<close> at \<open>tc\<close>, with the read of A no later than A's expiry, evict B: in the
  cache they leave, A and C (each read before it expires, at \<open>ra\<close> and \<open>rc\<close>) are found
  with their values, B is not found at any time \<open>rb\<close>, and the key index holds exactly A
  and C.
\<close>

theorem LRU_order:
  assumes "0 \<le> d" and "tg \<le> ta + d" and "ra \<le> ta + d" and "rc \<le> tc + d"
  shows "\<exists>c. exec (NewLRU 2 d)
              [OpAdd ''A'' va ta, OpAdd ''B'' vb tb, OpGet ''A'' tg, OpAdd ''C'' vc tc] = Inr c \<and>
     fst (Get c ''A'' ra) = (va, True) \<and>
     fst (Get c ''C'' rc) = (vc, True) \<and>
     fst (Get c ''B'' rb) = (None, False) \<and>
     map fst (items c) = [''A'', ''C'']"
  using assms by (simp add: op_defs)

theorem LRU_order_witness:
  "(0::int) \<le> 10 \<and> (3::int) \<le> 1 + 10 \<and> (5::int) \<le> 1 + 10 \<and> (6::int) \<le> 4 + 10 \<and>
   (\<exists>c. exec (NewLRU 2 10)
          [OpAdd ''A'' (Some (1::nat)) 1, OpAdd ''B'' (Some 2) 2, OpGet ''A'' 3, OpAdd ''C'' (Some 3) 4] = Inr c \<and>
     fst (Get c ''A'' 5) = (Some 1, True) \<and>
     fst (Get c ''C'' 6) = (Some 3, True) \<and>
     fst (Get c ''B'' 7) = (None, False) \<and>
     map fst (items c) = [''A'', ''C''])"
  using LRU_order [where d = 10 and ta = 1 and tb = 2 and tg = 3 and tc = 4
      and ra = 5 and rc = 6 and rb = 7
      and va = "Some (1::nat)" and vb = "Some 2" and vc = "Some 3"]
  by simp

text \<open>
  C5. The spec says that \<^verbatim>\<open>Get\<close> destroys an entry it finds expired. The code returns
  \<^verbatim>\<open>(nil, false)\<close> and touches nothing: after the expired read the key is still in
  the key index, the recency list and its bucket.
\<close>

theorem Get_expired_destroys_counterexample:
  "(case Add (NewLRU 2 5) ''A'' (Some (1::nat)) 0 of
      Inl err \<Rightarrow> None
    | Inr c \<Rightarrow>
        Some (fst (Get c ''A'' 10),
              map_of (items (snd (Get c ''A'' 10))) ''A'',
              queue (snd (Get c ''A'' 10)),
              entries (buckets (snd (Get c ''A'' 10)) ! 99))) =
   Some ((None, False), Some 0, [0], [(''A'', 0)])"
  by (simp add: op_defs)

text \<open>
  C5, as amended. Whenever \<^verbatim>\<open>Get\<close> finds the key present but past its expiry, it returns
  \<^verbatim>\<open>(nil, false)\<close> and leaves the whole cache as it was.
\<close>

theorem Get_expired_leaves_cache:
  "map_of (items c) key = Some ent \<Longrightarrow> ExpiresAt (heap c ent) < now \<Longrightarrow>
   Get c key now = ((None, False), c)"
  by (simp add: Get_def)

theorem Get_expired_leaves_cache_witness:
  "Add (NewLRU 2 5) ''A'' (Some (1::nat)) 0 = Inr (projr (Add (NewLRU 2 5) ''A'' (Some (1::nat)) 0)) \<and>
   map_of (items (projr (Add (NewLRU 2 5) ''A'' (Some (1::nat)) 0))) ''A'' = Some 0 \<and>
   ExpiresAt (heap (projr (Add (NewLRU 2 5) ''A'' (Some (1::nat)) 0)) 0) < 10 \<and>
   Get (projr (Add (NewLRU 2 5) ''A'' (Some (1::nat)) 0)) ''A'' 10 =
     ((None, False), projr (Add (NewLRU 2 5) ''A'' (Some (1::nat)) 0))"
proof -
  let ?c = "projr (Add (NewLRU 2 5) ''A'' (Some (1::nat)) 0)"
  have r: "Add (NewLRU 2 5) ''A'' (Some (1::nat)) 0 = Inr ?c" by (simp add: op_defs)
  have a: "map_of (items ?c) ''A'' = Some 0" by (simp add: op_defs)
  have b: "ExpiresAt (heap ?c 0) < 10" by (simp add: op_defs)
  from Get_expired_leaves_cache [OF a b] r a b show ?thesis by simp
qed

text \<open>
  C6. The spec says that the \<open>newestEntry\<close> of a non-empty bucket equals the greatest expiry
  among its members. The code raises \<open>newestEntry\<close> in \<^verbatim>\<open>addToBucket\<close> and never lowers
  it: after \<^verbatim>\<open>Add(A)\<close> at 1, \<^verbatim>\<open>Add(B)\<close> at 2 and \<^verbatim>\<open>Remove(B)\<close>, with a
  time-to-live of 10, bucket 99 holds only A, which expires at 11, and its \<open>newestEntry\<close>
  is still 12.
\<close>

theorem newestEntry_is_max_counterexample:
  "(case exec (NewLRU 2 10) [OpAdd ''A'' (Some (1::nat)) 1, OpAdd ''B'' (Some 2) 2, OpRemove ''B''] of
      Inl err \<Rightarrow> None
    | Inr c \<Rightarrow>
        Some (entries (buckets c ! 99), ExpiresAt (heap c 0), newestEntry (buckets c ! 99),
              newestEntry_is_max c 99)) =
   Some ([(''A'', 0)], 11, 12, False)"
  by (simp add: op_defs newestEntry_is_max_def)

text \<open>
  C6, as amended. In every reachable cache, the \<open>newestEntry\<close> of a bucket is an upper
  bound of the expiry of each of its members. As the reachable caches are those every
  sequence of \<^verbatim>\<open>Add\<close>, \<^verbatim>\<open>Get\<close>, \<^verbatim>\<open>Remove\<close>, \<^verbatim>\<open>RemoveOldest\<close>, \<^verbatim>\<open>Purge\<close> and
  sweep steps leaves, every operation preserves the bound.
\<close>

theorem newestEntry_upper_bound:
  assumes "exec (NewLRU cp life) xs = Inr c" and "b < numBuckets"
    and "map_of (entries (buckets c ! b)) k = Some e"
  shows "ExpiresAt (heap c e) \<le> newestEntry (buckets c ! b)"
  using bucket_okD[OF invarD_bucket[OF exec_invar[OF assms(1)] assms(2)] assms(3)] by simp

theorem newestEntry_upper_bound_witness:
  "exec (NewLRU 2 10) [OpAdd ''A'' (Some (1::nat)) 1, OpAdd ''B'' (Some 2) 2, OpRemove ''B''] =
     Inr (projr (exec (NewLRU 2 10) [OpAdd ''A'' (Some (1::nat)) 1, OpAdd ''B'' (Some 2) 2, OpRemove ''B''])) \<and>
   (99::nat) < numBuckets \<and>
   map_of (entries (buckets (projr (exec (NewLRU 2 10)
      [OpAdd ''A'' (Some (1::nat)) 1, OpAdd ''B'' (Some 2) 2, OpRemove ''B''])) ! 99)) ''A'' = Some 0 \<and>
   ExpiresAt (heap (projr (exec (NewLRU 2 10)
      [OpAdd ''A'' (Some (1::nat)) 1, OpAdd ''B'' (Some 2) 2, OpRemove ''B''])) 0) \<le>
     newestEntry (buckets (projr (exec (NewLRU 2 10)
      [OpAdd ''A'' (Some (1::nat)) 1, OpAdd ''B'' (Some 2) 2, OpRemove ''B''])) ! 99)"
proof -
  let ?c = "projr (exec (NewLRU 2 10) [OpAdd ''A'' (Some (1::nat)) 1, OpAdd ''B'' (Some 2) 2, OpRemove ''B''])"
  have r: "exec (NewLRU 2 10) [OpAdd ''A'' (Some (1::nat)) 1, OpAdd ''B'' (Some 2) 2, OpRemove ''B''] = Inr ?c"
    by (simp add: op_defs)
  have b: "(99::nat) < numBuckets" by (simp add: numBuckets_def)
  have m: "map_of (entries (buckets ?c ! 99)) ''A'' = Some 0" by (simp add: op_defs)
  from newestEntry_upper_bound [OF r b m] r b m show ?thesis by simp
qed

text \<open>
  C7. Bucket assignment. On a reachable cache \<^verbatim>\<open>Add\<close> does not panic, and the element
  \<open>e\<close> it leaves under the key expires at \<open>now + ttl\<close> and is in the bucket with index
  \<open>(nextCleanupBucket - 1 + numBuckets) mod numBuckets\<close>, computed on the integers, with
  \<open>numBuckets = 100\<close>; that bucket holds the key and no other bucket does (so a refreshed
  key has left its old bucket); and the bucket's \<open>newestEntry\<close> is the greater of its old
  value and the element's expiry.
\<close>

theorem Add_bucket_assignment:
  assumes "exec (NewLRU cp life) xs = Inr c"
  shows "\<exists>c' e. Add c key v now = Inr c' \<and> map_of (items c') key = Some e \<and>
     ExpiresAt (heap c' e) = now + ttl c \<and>
     unat (ExpireBucket (heap c' e)) =
       nat ((int (unat (nextCleanupBucket c)) - 1 + int numBuckets) mod int numBuckets) \<and>
     unat (ExpireBucket (heap c' e)) < numBuckets \<and>
     (\<forall>b < numBuckets. map_of (entries (buckets c' ! b)) key =
        (if b = unat (ExpireBucket (heap c' e)) then Some e else None)) \<and>
     newestEntry (buckets c' ! unat (ExpireBucket (heap c' e))) =
       max (newestEntry (buckets c ! unat (ExpireBucket (heap c' e)))) (now + ttl c)"
proof -
  have inv: "invar c" by (rule exec_invar[OF assms])
  have len: "length (buckets c) = numBuckets" and cur: "unat (nextCleanupBucket c) < numBuckets"
    using inv by (simp_all add: invar_def)
  let ?t = "unat (targetBucket c)"
  have t: "?t < numBuckets" by (rule unat_targetBucket)
  note f = targetBucket_formula[OF cur]
  show ?thesis
  proof (cases "map_of (items c) key")
    case (Some e)
    let ?p = "refreshed c e v (now + ttl c)"
    let ?c = "placed ?p e"
    note A = invar_Add_present[OF inv Some, of v now]
    note D = item_okD[OF invarD_item[OF inv Some]]
    have tb: "targetBucket ?p = targetBucket c" by (rule targetBucket_cong) simp
    have k: "Key (heap ?p e) = key" using D by simp
    have lk: "map_of (entries (buckets ?c ! b)) key = (if b = ?t then Some e else None)"
      if b: "b < numBuckets" for b
    proof -
      have "map_of (entries (buckets ?p ! b)) key = None"
      proof (cases "b = unat (ExpireBucket (heap c e))")
        case True
        then show ?thesis using b len D by (simp add: refreshed_lookup)
      next
        case False
        then show ?thesis using b len only_own_bucket[OF inv Some b False]
          by (simp add: refreshed_lookup)
      qed
      then show ?thesis using b len k by (simp add: placed_lookup tb)
    qed
    have ne: "newestEntry (buckets ?c ! ?t) = max (newestEntry (buckets c ! ?t)) (now + ttl c)"
      using t len by (simp add: placed_newestEntry tb refreshed_newestEntry)
    have "Add c key v now = Inr ?c \<and> map_of (items ?c) key = Some e \<and>
          ExpiresAt (heap ?c e) = now + ttl c \<and> unat (ExpireBucket (heap ?c e)) = ?t"
      using A(1) Some by (simp add: tb)
    then show ?thesis using f t lk ne by (intro exI[of _ ?c] exI[of _ e]) simp
  next
    case None
    let ?e = "nextAddr c"
    let ?p = "inserted (made_room c) key v (now + ttl c)"
    let ?c = "placed ?p ?e"
    note A = invar_Add_absent[OF inv None, of v now]
    have tb: "targetBucket ?p = targetBucket c" by (rule targetBucket_cong) (simp add: inserted_def)
    have hp: "heap ?p ?e = \<lparr>Key = key, Value = v, ExpiresAt = now + ttl c, ExpireBucket = 0\<rparr>"
      using inserted_fields(8)[of "made_room c" key v "now + ttl c"] by simp
    have lp: "length (buckets ?p) = numBuckets" using len by simp
    have lk: "map_of (entries (buckets ?c ! b)) key = (if b = ?t then Some ?e else None)"
      if b: "b < numBuckets" for b
    proof -
      have "map_of (entries (buckets ?p ! b)) key = None"
        using no_bucket_without_item[OF invar_made_room[OF inv] made_room_absent[OF None] b] by simp
      then show ?thesis using b lp hp by (simp add: placed_lookup tb)
    qed
    have ne: "newestEntry (buckets ?c ! ?t) = max (newestEntry (buckets c ! ?t)) (now + ttl c)"
      using t lp len hp by (simp add: placed_newestEntry tb made_room_newestEntry)
    have "map_of (items ?c) key = Some ?e" by (simp add: AList.update_conv')
    moreover have "ExpiresAt (heap ?c ?e) = now + ttl c" using hp by simp
    moreover have "unat (ExpireBucket (heap ?c ?e)) = ?t"
      using placed_fields(8)[of ?p ?e] by (simp add: tb)
    ultimately show ?thesis using A(1) f t lk ne by (intro exI[of _ ?c] exI[of _ ?e]) simp
  qed
qed

theorem Add_bucket_assignment_witness:
  "exec (NewLRU 2 10) [OpAdd ''A'' (Some (1::nat)) 1, OpDeleteExpired 2] =
     Inr (projr (exec (NewLRU 2 10) [OpAdd ''A'' (Some (1::nat)) 1, OpDeleteExpired 2])) \<and>
   nextCleanupBucket (projr (exec (NewLRU 2 10) [OpAdd ''A'' (Some (1::nat)) 1, OpDeleteExpired 2])) = 1 \<and>
   map_of (entries (buckets (projr (exec (NewLRU 2 10) [OpAdd ''A'' (Some (1::nat)) 1, OpDeleteExpired 2])) ! 99)) ''A'' = Some 0 \<and>
   (\<exists>c' e. Add (projr (exec (NewLRU 2 10) [OpAdd ''A'' (Some (1::nat)) 1, OpDeleteExpired 2])) ''A'' (Some 2) 3 = Inr c' \<and>
      map_of (items c') ''A'' = Some e \<and> ExpiresAt (heap c' e) = 13 \<and>
      unat (ExpireBucket (heap c' e)) = 0 \<and>
      map_of (entries (buckets c' ! 0)) ''A'' = Some e \<and>
      map_of (entries (buckets c' ! 99)) ''A'' = None \<and>
      newestEntry (buckets c' ! 0) = 13)"
proof -
  let ?c = "projr (exec (NewLRU 2 10) [OpAdd ''A'' (Some (1::nat)) 1, OpDeleteExpired 2])"
  have r: "exec (NewLRU 2 10) [OpAdd ''A'' (Some (1::nat)) 1, OpDeleteExpired 2] = Inr ?c"
    by (simp add: run_defs)
  have x: "nextCleanupBucket ?c = 1" "ttl ?c = 10" "newestEntry (buckets ?c ! 0) = 0"
    "map_of (entries (buckets ?c ! 99)) ''A'' = Some 0"
    by (simp_all add: run_defs)
  have n: "(0::nat) < numBuckets" "(99::nat) < numBuckets" by (simp_all add: numBuckets_def)
  from Add_bucket_assignment [OF r, of "''A''" "Some 2" 3]
  obtain c' e where a: "Add ?c ''A'' (Some 2) 3 = Inr c'" "map_of (items c') ''A'' = Some e"
    "ExpiresAt (heap c' e) = 3 + ttl ?c"
    "unat (ExpireBucket (heap c' e)) =
       nat ((int (unat (nextCleanupBucket ?c)) - 1 + int numBuckets) mod int numBuckets)"
    "\<forall>b < numBuckets. map_of (entries (buckets c' ! b)) ''A'' =
        (if b = unat (ExpireBucket (heap c' e)) then Some e else None)"
    "newestEntry (buckets c' ! unat (ExpireBucket (heap c' e))) =
       max (newestEntry (buckets ?c ! unat (ExpireBucket (heap c' e)))) (3 + ttl ?c)"
    by blast
  have b: "unat (ExpireBucket (heap c' e)) = 0" using a(4) x(1) by (simp add: numBuckets_def)
  have "map_of (entries (buckets c' ! 0)) ''A'' = Some e" "map_of (entries (buckets c' ! 99)) ''A'' = None"
    using a(5) n b by simp_all
  moreover have "newestEntry (buckets c' ! 0) = 13" using a(6) b x by simp
  moreover have "ExpiresAt (heap c' e) = 13" using a(3) x by simp
  ultimately show ?thesis using r x a(1,2) b by blast
qed

text \<open>
  C8. Contract of \<^verbatim>\<open>RemoveOldest\<close> on a reachable cache. The recency list is empty
  exactly when the key index is. On an empty cache the call returns \<open>found = false\<close> and
  the cache unchanged. Otherwise it returns the key and value of the last element of the
  recency list with \<open>found = true\<close>, and leaves the list without its last element, the key
  index without that key (one entry fewer, the others as they were) and every bucket without
  that key. The operation takes no clock reading: expiry is not consulted (in the instance
  that follows, the entry returned expired at 5).
\<close>

theorem RemoveOldest_contract:
  assumes "exec (NewLRU cp life) xs = Inr c"
  shows "(queue c = [] \<longleftrightarrow> items c = []) \<and>
         (queue c = [] \<longrightarrow> RemoveOldest c = Inr (([], None, False), c)) \<and>
         (queue c \<noteq> [] \<longrightarrow>
            (\<exists>c'. RemoveOldest c =
                    Inr ((Key (heap c (last (queue c))), Value (heap c (last (queue c))), True), c') \<and>
                  queue c' = butlast (queue c) \<and>
                  map_of (items c) (Key (heap c (last (queue c)))) = Some (last (queue c)) \<and>
                  map_of (items c') = (map_of (items c))(Key (heap c (last (queue c))) := None) \<and>
                  length (items c') = length (items c) - 1 \<and>
                  (\<forall>b < numBuckets. map_of (entries (buckets c' ! b)) (Key (heap c (last (queue c)))) = None) \<and>
                  heap c' = heap c \<and> nextCleanupBucket c' = nextCleanupBucket c))"
proof -
  have inv: "invar c" by (rule exec_invar[OF assms])
  have len: "length (buckets c) = numBuckets" and dq: "distinct (queue c)"
    and di: "distinct (map fst (items c))" and li: "length (items c) = length (queue c)"
    using inv by (simp_all add: invar_def)
  note R = invar_RemoveOldest(1)[OF inv]
  have e: "queue c = [] \<longleftrightarrow> items c = []" using li by (metis length_0_conv)
  have n: "\<exists>c'. RemoveOldest c =
                    Inr ((Key (heap c (last (queue c))), Value (heap c (last (queue c))), True), c') \<and>
                  queue c' = butlast (queue c) \<and>
                  map_of (items c) (Key (heap c (last (queue c)))) = Some (last (queue c)) \<and>
                  map_of (items c') = (map_of (items c))(Key (heap c (last (queue c))) := None) \<and>
                  length (items c') = length (items c) - 1 \<and>
                  (\<forall>b < numBuckets. map_of (entries (buckets c' ! b)) (Key (heap c (last (queue c)))) = None) \<and>
                  heap c' = heap c \<and> nextCleanupBucket c' = nextCleanupBucket c"
    if ne: "queue c \<noteq> []"
  proof -
    let ?e = "last (queue c)" let ?c = "removed c (last (queue c))"
    have "?e \<in> set (queue c)" using ne by simp
    then have ke: "map_of (items c) (Key (heap c ?e)) = Some ?e" using invarD_queue[OF inv] by simp
    have lk: "map_of (entries (buckets ?c ! b)) (Key (heap c ?e)) = None" if b: "b < numBuckets" for b
    proof (cases "b = unat (ExpireBucket (heap c ?e))")
      case True
      then show ?thesis using b len by (simp add: removed_lookup)
    next
      case False
      then show ?thesis using b len only_own_bucket[OF inv ke b False] by (simp add: removed_lookup)
    qed
    have "length (items ?c) = length (items c) - 1" using length_delete_present[OF di ke] by simp
    moreover have "queue ?c = butlast (queue c)" using remove1_last[OF dq ne] by simp
    moreover have "RemoveOldest c = Inr ((Key (heap c ?e), Value (heap c ?e), True), ?c)"
      using R ne by simp
    ultimately show ?thesis using ke lk
      by (intro exI[of _ ?c]) (simp add: AList.delete_conv')
  qed
  show ?thesis using e n R by auto
qed

theorem RemoveOldest_contract_witness:
  "exec (NewLRU 2 5) [] = Inr (NewLRU 2 5 :: nat LRU) \<and>
   queue (NewLRU 2 5 :: nat LRU) = [] \<and>
   RemoveOldest (NewLRU 2 5 :: nat LRU) = Inr (([], None, False), NewLRU 2 5) \<and>
   exec (NewLRU 2 5) [OpAdd ''A'' (Some (1::nat)) 0, OpAdd ''B'' (Some 2) 1] =
     Inr (projr (exec (NewLRU 2 5) [OpAdd ''A'' (Some (1::nat)) 0, OpAdd ''B'' (Some 2) 1])) \<and>
   queue (projr (exec (NewLRU 2 5) [OpAdd ''A'' (Some (1::nat)) 0, OpAdd ''B'' (Some 2) 1])) = [1, 0] \<and>
   ExpiresAt (heap (projr (exec (NewLRU 2 5) [OpAdd ''A'' (Some (1::nat)) 0, OpAdd ''B'' (Some 2) 1])) 0) = 5 \<and>
   (\<exists>c'. RemoveOldest (projr (exec (NewLRU 2 5) [OpAdd ''A'' (Some (1::nat)) 0, OpAdd ''B'' (Some 2) 1])) =
           Inr ((''A'', Some 1, True), c') \<and>
         queue c' = [1] \<and> map_of (items c') ''A'' = None \<and>
         map_of (entries (buckets c' ! 99)) ''A'' = None)"
proof -
  let ?c = "projr (exec (NewLRU 2 5) [OpAdd ''A'' (Some (1::nat)) 0, OpAdd ''B'' (Some 2) 1])"
  have r0: "exec (NewLRU 2 5) [] = Inr (NewLRU 2 5 :: nat LRU)" by simp
  have q0: "queue (NewLRU 2 5 :: nat LRU) = []" by (simp add: NewLRU_def)
  have r: "exec (NewLRU 2 5) [OpAdd ''A'' (Some (1::nat)) 0, OpAdd ''B'' (Some 2) 1] = Inr ?c"
    by (simp add: run_defs)
  have x: "queue ?c = [1, 0]" "ExpiresAt (heap ?c 0) = 5" "Key (heap ?c 0) = ''A''"
    "Value (heap ?c 0) = Some 1"
    by (simp_all add: run_defs)
  have n: "(99::nat) < numBuckets" by (simp add: numBuckets_def)
  from RemoveOldest_contract [OF r0] q0
  have e: "RemoveOldest (NewLRU 2 5 :: nat LRU) = Inr (([], None, False), NewLRU 2 5)" by simp
  from RemoveOldest_contract [OF r] x n
  have "\<exists>c'. RemoveOldest ?c = Inr ((''A'', Some 1, True), c') \<and>
         queue c' = [1] \<and> map_of (items c') ''A'' = None \<and>
         map_of (entries (buckets c' ! 99)) ''A'' = None"
    by auto
  then show ?thesis using r0 q0 e r x by blast
qed

text \<open>
  C9. \<^verbatim>\<open>Purge\<close> on a reachable cache leaves the key index empty, the recency list empty
  and every bucket's entries empty, so that \<^verbatim>\<open>Get\<close> finds no key and the number of live
  entries is 0; it leaves \<open>nextCleanupBucket\<close> as it was.
\<close>

theorem Purge_complete:
  assumes "exec (NewLRU cp life) xs = Inr c"
  shows "items (Purge c) = [] \<and> queue (Purge c) = [] \<and>
         length (buckets (Purge c)) = length (buckets c) \<and>
         (\<forall>b < length (buckets c). entries (buckets (Purge c) ! b) = []) \<and>
         nextCleanupBucket (Purge c) = nextCleanupBucket c \<and>
         fst (Get (Purge c) key now) = (None, False) \<and>
         length (items (Purge c)) = 0"
proof -
  have "Purge c = purged c" by (rule Purge_purged[OF exec_invar[OF assms]])
  then show ?thesis by (simp add: purged_def Get_def)
qed

theorem Purge_complete_witness:
  "exec (NewLRU 2 10) [OpAdd ''A'' (Some (1::nat)) 1, OpDeleteExpired 2, OpAdd ''B'' (Some 2) 3] =
     Inr (projr (exec (NewLRU 2 10) [OpAdd ''A'' (Some (1::nat)) 1, OpDeleteExpired 2, OpAdd ''B'' (Some 2) 3])) \<and>
   (99::nat) < length (buckets (projr (exec (NewLRU 2 10)
       [OpAdd ''A'' (Some (1::nat)) 1, OpDeleteExpired 2, OpAdd ''B'' (Some 2) 3]))) \<and>
   entries (buckets (projr (exec (NewLRU 2 10)
       [OpAdd ''A'' (Some (1::nat)) 1, OpDeleteExpired 2, OpAdd ''B'' (Some 2) 3])) ! 99) = [(''A'', 0)] \<and>
   items (Purge (projr (exec (NewLRU 2 10)
       [OpAdd ''A'' (Some (1::nat)) 1, OpDeleteExpired 2, OpAdd ''B'' (Some 2) 3]))) = [] \<and>
   queue (Purge (projr (exec (NewLRU 2 10)
       [OpAdd ''A'' (Some (1::nat)) 1, OpDeleteExpired 2, OpAdd ''B'' (Some 2) 3]))) = [] \<and>
   entries (buckets (Purge (projr (exec (NewLRU 2 10)
       [OpAdd ''A'' (Some (1::nat)) 1, OpDeleteExpired 2, OpAdd ''B'' (Some 2) 3]))) ! 99) = [] \<and>
   nextCleanupBucket (Purge (projr (exec (NewLRU 2 10)
       [OpAdd ''A'' (Some (1::nat)) 1, OpDeleteExpired 2, OpAdd ''B'' (Some 2) 3]))) = 1 \<and>
   fst (Get (Purge (projr (exec (NewLRU 2 10)
       [OpAdd ''A'' (Some (1::nat)) 1, OpDeleteExpired 2, OpAdd ''B'' (Some 2) 3]))) ''A'' 4) = (None, False)"
proof -
  let ?c = "projr (exec (NewLRU 2 10) [OpAdd ''A'' (Some (1::nat)) 1, OpDeleteExpired 2, OpAdd ''B'' (Some 2) 3])"
  have r: "exec (NewLRU 2 10) [OpAdd ''A'' (Some (1::nat)) 1, OpDeleteExpired 2, OpAdd ''B'' (Some 2) 3] = Inr ?c"
    by (simp add: op_defs deleteExpired_def)
  have x: "(99::nat) < length (buckets ?c)" "entries (buckets ?c ! 99) = [(''A'', 0)]"
    "nextCleanupBucket ?c = 1"
    by (simp_all add: op_defs deleteExpired_def)
  from Purge_complete [OF r, of "''A''" 4] r x show ?thesis by simp
qed

text \<open>
  C10. \<^verbatim>\<open>Add\<close> on a key that is in the key index of a reachable cache but already
  expired takes the update path: it does not panic, the key index is the same association
  (nothing is evicted, the number of entries is unchanged, also at capacity as in the
  instance that follows), the element is moved to the front of the recency list, its value and expiry are
  refreshed, and \<^verbatim>\<open>Get\<close> finds the key with the new value at the time of the call and at
  every time up to the new expiry.
\<close>

theorem Add_expired_present:
  assumes "exec (NewLRU cp life) xs = Inr c" and "map_of (items c) key = Some e"
    and "ExpiresAt (heap c e) < now"
  shows "\<exists>c'. Add c key v now = Inr c' \<and> items c' = items c \<and>
           queue c' = e # remove1 e (queue c) \<and> set (queue c') = set (queue c) \<and>
           Value (heap c' e) = v \<and> ExpiresAt (heap c' e) = now + ttl c \<and>
           fst (Get c' key now) = (v, True) \<and>
           (\<forall>t \<le> now + ttl c. fst (Get c' key t) = (v, True))"
proof -
  have inv: "invar c" by (rule exec_invar[OF assms(1)])
  have tt: "0 \<le> ttl c" using exec_config(2)[OF assms(1)] by simp
  let ?c = "placed (refreshed c e v (now + ttl c)) e"
  note A = invar_Add_present[OF inv assms(2), of v now]
  have e: "e \<in> set (queue c)" using item_okD[OF invarD_item[OF inv assms(2)]] by simp
  have dq: "distinct (queue c)" using inv by (simp add: invar_def)
  have s: "set (queue ?c) = set (queue c)" using e dq by auto
  have g: "fst (Get ?c key t) = (v, True)" if "t \<le> now + ttl c" for t
    using that assms(2) by (simp add: Get_def)
  show ?thesis using A(1) s g tt by (intro exI[of _ ?c]) simp
qed

theorem Add_expired_present_witness:
  "exec (NewLRU 1 5) [OpAdd ''A'' (Some (1::nat)) 0] =
     Inr (projr (exec (NewLRU 1 5) [OpAdd ''A'' (Some (1::nat)) 0])) \<and>
   map_of (items (projr (exec (NewLRU 1 5) [OpAdd ''A'' (Some (1::nat)) 0]))) ''A'' = Some 0 \<and>
   ExpiresAt (heap (projr (exec (NewLRU 1 5) [OpAdd ''A'' (Some (1::nat)) 0])) 0) < 10 \<and>
   int (length (items (projr (exec (NewLRU 1 5) [OpAdd ''A'' (Some (1::nat)) 0])))) =
     cap (projr (exec (NewLRU 1 5) [OpAdd ''A'' (Some (1::nat)) 0])) \<and>
   fst (Get (projr (exec (NewLRU 1 5) [OpAdd ''A'' (Some (1::nat)) 0])) ''A'' 10) = (None, False) \<and>
   (\<exists>c'. Add (projr (exec (NewLRU 1 5) [OpAdd ''A'' (Some (1::nat)) 0])) ''A'' (Some 2) 10 = Inr c' \<and>
        items c' = [(''A'', 0)] \<and> queue c' = [0] \<and> Value (heap c' 0) = Some 2 \<and>
        ExpiresAt (heap c' 0) = 15 \<and> fst (Get c' ''A'' 10) = (Some 2, True) \<and>
        fst (Get c' ''A'' 15) = (Some 2, True))"
proof -
  let ?c = "projr (exec (NewLRU 1 5) [OpAdd ''A'' (Some (1::nat)) 0])"
  have r: "exec (NewLRU 1 5) [OpAdd ''A'' (Some (1::nat)) 0] = Inr ?c" by (simp add: op_defs)
  have a: "map_of (items ?c) ''A'' = Some 0" by (simp add: op_defs)
  have b: "ExpiresAt (heap ?c 0) < 10" by (simp add: op_defs)
  have x: "items ?c = [(''A'', 0)]" "queue ?c = [0]" "ttl ?c = 5" "cap ?c = 1"
    "fst (Get ?c ''A'' 10) = (None, False)"
    by (simp_all add: op_defs)
  from Add_expired_present [OF r a b, of "Some 2"] x
  have "\<exists>c'. Add ?c ''A'' (Some 2) 10 = Inr c' \<and>
        items c' = [(''A'', 0)] \<and> queue c' = [0] \<and> Value (heap c' 0) = Some 2 \<and>
        ExpiresAt (heap c' 0) = 15 \<and> fst (Get c' ''A'' 10) = (Some 2, True) \<and>
        fst (Get c' ''A'' 15) = (Some 2, True)"
    by auto
  then show ?thesis using r a b x by simp
qed

end
